theory Spec2Isabelle
  imports Main "HOL-Library.AList" "HOL-Library.Product_Lexorder"
begin

section \<open>Errors\<close>

text \<open>
  The exceptions the modelled functions of \<^verbatim>\<open>src/ahb_diff/main.py\<close> can raise.
  \<open>InvalidFormatversion\<close> is the \<^verbatim>\<open>ValueError("invalid formatversion: ...")\<close> raised by
  \<^verbatim>\<open>parse_formatversions\<close> itself, \<open>InvalidLiteral\<close> the \<^verbatim>\<open>ValueError\<close> raised by Python's
  \<^verbatim>\<open>int()\<close> on a string it rejects. \<open>KeyError\<close> and \<open>IndexError\<close> come from pandas
  label and position lookups, \<open>NotADirectoryError\<close> from \<^verbatim>\<open>Path.iterdir\<close>.
\<close>

datatype error =
    InvalidFormatversion string
  | InvalidLiteral string
  | KeyError string
  | IndexError
  | NotADirectoryError string

section \<open>Version tags: \<^verbatim>\<open>parse_formatversions\<close>\<close>

text \<open>
  A Python \<^verbatim>\<open>str\<close> is modelled as a \<^typ>\<open>string\<close> whose characters are the code
  points below 256. On such strings \<^verbatim>\<open>int(s)\<close> (base 10) strips leading and trailing
  white space (code points 9 to 13, 32, 133 and 160), accepts one optional sign, and then
  requires decimal digits, where single underscores may separate digits.
\<close>

definition py_isspace :: "char \<Rightarrow> bool" where
  "py_isspace c = (of_char c \<in> {9, 10, 11, 12, 13, 32, 133, 160 :: nat})"

definition is_digit :: "char \<Rightarrow> bool" where
  "is_digit c = (48 \<le> (of_char c :: nat) \<and> (of_char c :: nat) \<le> 57)"

definition digit_val :: "char \<Rightarrow> nat" where
  "digit_val c = of_char c - 48"

fun digits_val :: "nat \<Rightarrow> string \<Rightarrow> nat option" where
  "digits_val acc [] = Some acc"
| "digits_val acc (c # cs) =
     (if is_digit c then digits_val (10 * acc + digit_val c) cs
      else if c = CHR ''_'' then
        (case cs of
           [] \<Rightarrow> None
         | d # ds \<Rightarrow> if is_digit d then digits_val (10 * acc + digit_val d) ds else None)
      else None)"

fun py_digits :: "string \<Rightarrow> nat option" where
  "py_digits [] = None"
| "py_digits (c # cs) = (if is_digit c then digits_val (digit_val c) cs else None)"

definition py_strip :: "string \<Rightarrow> string" where
  "py_strip s = rev (dropWhile py_isspace (rev (dropWhile py_isspace s)))"

definition py_int :: "string \<Rightarrow> int option" where
  "py_int s =
     (case py_strip s of
        [] \<Rightarrow> None
      | c # cs \<Rightarrow>
          if c = CHR ''+'' then map_option int (py_digits cs)
          else if c = CHR ''-'' then map_option (\<lambda>n. - int n) (py_digits cs)
          else map_option int (py_digits (c # cs)))"

definition startswith :: "string \<Rightarrow> string \<Rightarrow> bool" where
  "startswith s p = (take (length p) s = p)"

definition parse_formatversions :: "string \<Rightarrow> error + (int \<times> int)" where
  "parse_formatversions formatversion =
     (if \<not> startswith formatversion ''FV'' \<or> length formatversion \<noteq> 6
      then Inl (InvalidFormatversion formatversion)
      else case py_int (take 2 (drop 2 formatversion)) of
             None \<Rightarrow> Inl (InvalidLiteral (take 2 (drop 2 formatversion)))
           | Some year \<Rightarrow>
               (case py_int (take 2 (drop 4 formatversion)) of
                  None \<Rightarrow> Inl (InvalidLiteral (take 2 (drop 4 formatversion)))
                | Some month \<Rightarrow>
                    if \<not> (1 \<le> month \<and> month \<le> 12)
                    then Inl (InvalidFormatversion formatversion)
                    else Inr (2000 + year, month)))"

section \<open>Version directories: discovery and pairing\<close>

text \<open>
  The directory tree below \<^verbatim>\<open>SUBMODULE\<close>: a node is a file or a directory with its
  entries in the order \<^verbatim>\<open>iterdir\<close> yields them. The tree is \<open>None\<close> when the base
  directory does not exist.
\<close>

datatype node = File | Dir "(string \<times> node) list"

type_synonym tree = "node option"

fun is_dir :: "node \<Rightarrow> bool" where
  "is_dir File = False"
| "is_dir (Dir _) = True"

text \<open>\<^verbatim>\<open>d / name\<close> followed by \<^verbatim>\<open>exists()\<close>: the entry of that name, if there is one.\<close>

fun child :: "node \<Rightarrow> string \<Rightarrow> node option" where
  "child File name = None"
| "child (Dir es) name = map_of es name"

text \<open>
  The keys of \<^verbatim>\<open>list.sort(key=parse_formatversions, reverse=True)\<close> are computed for
  every element before any comparison; the first failing element raises.
\<close>

fun sort_keys :: "string list \<Rightarrow> error + ((int \<times> int) \<times> string) list" where
  "sort_keys [] = Inr []"
| "sort_keys (d # ds) =
     (case parse_formatversions d of
        Inl e \<Rightarrow> Inl e
      | Inr k \<Rightarrow> (case sort_keys ds of Inl e \<Rightarrow> Inl e | Inr ks \<Rightarrow> Inr ((k, d) # ks)))"

text \<open>
  Python's sort is stable; with \<^verbatim>\<open>reverse=True\<close> it reverses, sorts ascending and
  reverses again, so that equal keys keep their original order.
\<close>

definition sort_reverse :: "((int \<times> int) \<times> string) list \<Rightarrow> string list" where
  "sort_reverse ks = map snd (rev (sort_key fst (rev ks)))"

definition get_available_formatversions :: "tree \<Rightarrow> error + string list" where
  "get_available_formatversions t =
     (case t of
        None \<Rightarrow> Inr []
      | Some File \<Rightarrow> Inl (NotADirectoryError ''SUBMODULE'')
      | Some (Dir es) \<Rightarrow>
          (case sort_keys
                  (map fst (filter (\<lambda>(name, d). is_dir d \<and> startswith name ''FV'' \<and> length name = 6) es)) of
             Inl e \<Rightarrow> Inl e
           | Inr ks \<Rightarrow> Inr (sort_reverse ks)))"

definition get_nachrichtenformat_dirs :: "node option \<Rightarrow> error + (string \<times> node) list" where
  "get_nachrichtenformat_dirs formatversion_dir =
     (case formatversion_dir of
        None \<Rightarrow> Inr []
      | Some File \<Rightarrow> Inl (NotADirectoryError ''formatversion_dir'')
      | Some (Dir es) \<Rightarrow>
          Inr (filter (\<lambda>(name, d). is_dir d \<and>
                 (case child d ''csv'' of None \<Rightarrow> False | Some c \<Rightarrow> is_dir c)) es))"

definition formatversion_dir :: "tree \<Rightarrow> string \<Rightarrow> node option" where
  "formatversion_dir t formatversion =
     (case t of None \<Rightarrow> None | Some n \<Rightarrow> child n formatversion)"

definition is_formatversion_empty :: "tree \<Rightarrow> string \<Rightarrow> error + bool" where
  "is_formatversion_empty t formatversion =
     (case formatversion_dir t formatversion of
        None \<Rightarrow> Inr True
      | Some d \<Rightarrow>
          (case get_nachrichtenformat_dirs (Some d) of
             Inl e \<Rightarrow> Inl e
           | Inr ds \<Rightarrow> Inr (length ds = 0)))"

text \<open>
  The body of the \<^verbatim>\<open>for i in range(len(formatversion_list) - 1)\<close> loop, run over the
  remaining indices; \<^verbatim>\<open>or\<close> does not evaluate its second operand when the first is true.
\<close>

fun pair_loop ::
  "tree \<Rightarrow> string list \<Rightarrow> nat list \<Rightarrow> (string \<times> string) list \<Rightarrow> error + (string \<times> string) list"
where
  "pair_loop t formatversion_list [] consecutive = Inr consecutive"
| "pair_loop t formatversion_list (i # is) consecutive =
     (let subsequent_formatversion = formatversion_list ! i;
          previous_formatversion = formatversion_list ! (i + 1)
      in case is_formatversion_empty t subsequent_formatversion of
           Inl e \<Rightarrow> Inl e
         | Inr True \<Rightarrow> pair_loop t formatversion_list is consecutive
         | Inr False \<Rightarrow>
             (case is_formatversion_empty t previous_formatversion of
                Inl e \<Rightarrow> Inl e
              | Inr True \<Rightarrow> pair_loop t formatversion_list is consecutive
              | Inr False \<Rightarrow>
                  pair_loop t formatversion_list is
                    (consecutive @ [(subsequent_formatversion, previous_formatversion)])))"

definition determine_consecutive_formatversions :: "tree \<Rightarrow> error + (string \<times> string) list" where
  "determine_consecutive_formatversions t =
     (case get_available_formatversions t of
        Inl e \<Rightarrow> Inl e
      | Inr formatversion_list \<Rightarrow>
          pair_loop t formatversion_list [0..<length formatversion_list - 1] [])"

section \<open>Tables\<close>

text \<open>
  A cell read with \<^verbatim>\<open>dtype=str\<close> is a string or the missing value. \<^verbatim>\<open>read_csv\<close> stores
  every missing cell as the one object \<^verbatim>\<open>numpy.nan\<close>, so \<open>NaN\<close> stands for that object.
  A \<^verbatim>\<open>DataFrame\<close> is its column labels and its rows, each row listing one cell per
  column.
\<close>

datatype cell = Str string | NaN

record DataFrame =
  columns :: "string list"
  rows :: "cell list list"

text \<open>\<^verbatim>\<open>df.empty\<close>: some axis has length 0.\<close>

definition df_empty :: "DataFrame \<Rightarrow> bool" where
  "df_empty df = (columns df = [] \<or> rows df = [])"

text \<open>A row as a mapping from column label to cell.\<close>

definition row_map :: "string list \<Rightarrow> cell list \<Rightarrow> string \<rightharpoonup> cell" where
  "row_map cols r = map_of (zip cols r)"

text \<open>\<^verbatim>\<open>df.iloc[idx][col]\<close>\<close>

definition iloc_get :: "DataFrame \<Rightarrow> nat \<Rightarrow> string \<Rightarrow> error + cell" where
  "iloc_get df idx col =
     (if idx < length (rows df)
      then (case row_map (columns df) (rows df ! idx) col of
              None \<Rightarrow> Inl (KeyError col)
            | Some v \<Rightarrow> Inr v)
      else Inl IndexError)"

text \<open>\<^verbatim>\<open>df[col].tolist()\<close>\<close>

definition column_values :: "DataFrame \<Rightarrow> string \<Rightarrow> error + cell list" where
  "column_values df col =
     (if col \<in> set (columns df)
      then Inr (map (\<lambda>r. case row_map (columns df) r col of None \<Rightarrow> NaN | Some v \<Rightarrow> v) (rows df))
      else Inl (KeyError col))"

text \<open>\<^verbatim>\<open>df.rename(columns={"Segmentname": f"Segmentname_{formatversion}"})\<close>\<close>

definition segmentname_col :: "string \<Rightarrow> string" where
  "segmentname_col formatversion = ''Segmentname_'' @ formatversion"

definition suffixed :: "string \<Rightarrow> string \<Rightarrow> string" where
  "suffixed col formatversion = col @ ''_'' @ formatversion"

definition rename_segmentname :: "string \<Rightarrow> DataFrame \<Rightarrow> DataFrame" where
  "rename_segmentname formatversion df =
     df\<lparr>columns := map (\<lambda>c. if c = ''Segmentname'' then segmentname_col formatversion else c)
                        (columns df)\<rparr>"

text \<open>
  Keys of a Python \<^verbatim>\<open>dict\<close> keep their insertion order and an assignment to a
  present key keeps its position: an association list under \<^const>\<open>AList.update\<close>.
\<close>

type_synonym row = "(string \<times> cell) list"

text \<open>
  \<^verbatim>\<open>pd.DataFrame(result_rows)\<close>: the columns are the keys in order of first appearance,
  a key missing from a row reads as the missing value.
\<close>

definition first_seen :: "'a list \<Rightarrow> 'a list" where
  "first_seen xs = rev (remdups (rev xs))"

definition from_records :: "row list \<Rightarrow> DataFrame" where
  "from_records rs =
     (let cols = first_seen (concat (map (map fst) rs))
      in \<lparr>columns = cols,
          rows = map (\<lambda>r. map (\<lambda>c. case map_of r c of None \<Rightarrow> NaN | Some v \<Rightarrow> v) cols) rs\<rparr>)"

text \<open>\<^verbatim>\<open>df[column_order]\<close>: a label that is no column raises.\<close>

definition select_columns :: "DataFrame \<Rightarrow> string list \<Rightarrow> error + DataFrame" where
  "select_columns df order =
     (case find (\<lambda>c. c \<notin> set (columns df)) order of
        Some c \<Rightarrow> Inl (KeyError c)
      | None \<Rightarrow>
          Inr \<lparr>columns = order,
               rows = map (\<lambda>r. map (\<lambda>c. case row_map (columns df) r c of None \<Rightarrow> NaN | Some v \<Rightarrow> v)
                                   order)
                          (rows df)\<rparr>)"

text \<open>
  \<^verbatim>\<open>.astype(str).replace("nan", "")\<close>, cell by cell: the missing value prints as
  \<^verbatim>\<open>"nan"\<close>, and every cell that then reads \<^verbatim>\<open>"nan"\<close> becomes the empty string.
\<close>

fun astype_str_replace_nan :: "cell \<Rightarrow> cell" where
  "astype_str_replace_nan NaN = Str []"
| "astype_str_replace_nan (Str s) = (if s = ''nan'' then Str [] else Str s)"

definition map_cells :: "(cell \<Rightarrow> cell) \<Rightarrow> DataFrame \<Rightarrow> DataFrame" where
  "map_cells f df = df\<lparr>rows := map (map f) (rows df)\<rparr>"

section \<open>Row builder: \<^verbatim>\<open>_populate_row_values\<close> and \<^verbatim>\<open>create_row\<close>\<close>

definition and_then :: "error + 'a \<Rightarrow> ('a \<Rightarrow> error + 'b) \<Rightarrow> error + 'b" where
  "and_then r f = (case r of Inl e \<Rightarrow> Inl e | Inr x \<Rightarrow> f x)"

text \<open>The \<^verbatim>\<open>for col in df.columns\<close> loop of \<^verbatim>\<open>_populate_row_values\<close>.\<close>

fun populate_columns ::
  "DataFrame \<Rightarrow> nat \<Rightarrow> string \<Rightarrow> string list \<Rightarrow> row \<Rightarrow> error + row"
where
  "populate_columns df idx formatversion [] row = Inr row"
| "populate_columns df idx formatversion (col # cols) row =
     (if col \<noteq> segmentname_col formatversion
      then and_then (iloc_get df idx col)
             (\<lambda>value. populate_columns df idx formatversion cols
                (AList.update (suffixed col formatversion)
                   (if value = NaN then Str [] else value) row))
      else populate_columns df idx formatversion cols row)"

definition populate_row_values ::
  "DataFrame option \<Rightarrow> row \<Rightarrow> nat option \<Rightarrow> string \<Rightarrow> bool \<Rightarrow> error + row"
where
  "populate_row_values df row idx formatversion is_segmentname =
     (case (df, idx) of
        (Some d, Some ix) \<Rightarrow>
          if is_segmentname
          then and_then (iloc_get d ix (segmentname_col formatversion))
                 (\<lambda>value. Inr (AList.update (segmentname_col formatversion) value row))
          else populate_columns d ix formatversion (columns d) row
      | _ \<Rightarrow> Inr row)"

text \<open>The two \<^verbatim>\<open>for col in ....columns\<close> loops of \<^verbatim>\<open>create_row\<close> that blank a side.\<close>

definition blank_columns :: "string list \<Rightarrow> string \<Rightarrow> row \<Rightarrow> row" where
  "blank_columns cols formatversion row =
     fold (\<lambda>col r. if col \<noteq> segmentname_col formatversion
                    then AList.update (suffixed col formatversion) (Str []) r else r)
          cols row"

definition create_row ::
  "DataFrame option \<Rightarrow> DataFrame option \<Rightarrow> nat option \<Rightarrow> nat option \<Rightarrow> string \<Rightarrow> string
     \<Rightarrow> error + row"
where
  "create_row previous_df new_df i j previous_formatversion subsequent_formatversion =
     (let row0 = AList.update (segmentname_col subsequent_formatversion) (Str [])
                   (AList.update ''diff'' (Str [])
                      (AList.update (segmentname_col previous_formatversion) (Str []) []));
          row1 = (case previous_df of
                    None \<Rightarrow> row0
                  | Some d \<Rightarrow> blank_columns (columns d) previous_formatversion row0);
          row2 = (case new_df of
                    None \<Rightarrow> row1
                  | Some d \<Rightarrow> blank_columns (columns d) subsequent_formatversion row1)
      in and_then (populate_row_values previous_df row2 i previous_formatversion True) (\<lambda>row3.
         and_then (populate_row_values new_df row3 j subsequent_formatversion True) (\<lambda>row4.
         and_then (populate_row_values previous_df row4 i previous_formatversion False) (\<lambda>row5.
         populate_row_values new_df row5 j subsequent_formatversion False))))"

section \<open>Alignment engine: \<^verbatim>\<open>align_columns\<close>\<close>

text \<open>\<^verbatim>\<open>==\<close> on two cells: the missing value is a float NaN and equals nothing.\<close>

fun py_eq :: "cell \<Rightarrow> cell \<Rightarrow> bool" where
  "py_eq (Str a) (Str b) = (a = b)"
| "py_eq _ _ = False"

text \<open>
  \<^verbatim>\<open>xs.index(x)\<close> returns the first position whose element is the object \<open>x\<close> or
  equals it, and raises \<^verbatim>\<open>ValueError\<close> (here \<open>None\<close>) when there is none. Two strings
  match when equal, and the missing value matches itself by identity.
\<close>

fun py_index :: "cell list \<Rightarrow> cell \<Rightarrow> nat option" where
  "py_index [] x = None"
| "py_index (y # ys) x = (if y = x then Some 0 else map_option Suc (py_index ys x))"

text \<open>
  \<^verbatim>\<open>row = create_row(...); row["diff"] = tag\<close>, the pair of statements that precedes
  every \<^verbatim>\<open>result_rows.append(row)\<close>.
\<close>

definition tagged_row ::
  "DataFrame \<Rightarrow> DataFrame \<Rightarrow> string \<Rightarrow> string \<Rightarrow> nat option \<Rightarrow> nat option \<Rightarrow> string
     \<Rightarrow> error + row"
where
  "tagged_row df_old df_new previous_formatversion subsequent_formatversion i j tag =
     and_then (create_row (Some df_old) (Some df_new) i j previous_formatversion subsequent_formatversion)
       (\<lambda>row. Inr (AList.update ''diff'' (Str tag) row))"

text \<open>
  The loop state is \<open>(i, j, result_rows)\<close>. The loop is written over the function \<open>mk\<close>
  that builds the tagged row of a decision, so that it can also be run on the decisions
  alone.
\<close>

type_synonym 'r loop_state = "nat \<times> nat \<times> 'r list"

text \<open>The inner \<^verbatim>\<open>for _ in range(next_match_new)\<close> loop.\<close>

fun emit_new ::
  "(nat option \<Rightarrow> nat option \<Rightarrow> string \<Rightarrow> error + 'r) \<Rightarrow> nat \<Rightarrow> 'r loop_state \<Rightarrow> error + 'r loop_state"
where
  "emit_new mk 0 st = Inr st"
| "emit_new mk (Suc n) (i, j, result_rows) =
     and_then (mk None (Some j) ''NEW'')
       (\<lambda>row. emit_new mk n (i, j + 1, result_rows @ [row]))"

text \<open>One pass through the body of the \<^verbatim>\<open>while\<close> loop.\<close>

fun loop_body ::
  "(nat option \<Rightarrow> nat option \<Rightarrow> string \<Rightarrow> error + 'r) \<Rightarrow> cell list \<Rightarrow> cell list
     \<Rightarrow> 'r loop_state \<Rightarrow> error + 'r loop_state"
where
  "loop_body mk segments_old segments_new (i, j, result_rows) =
     (if i \<ge> length segments_old
      then and_then (mk None (Some j) ''NEW'') (\<lambda>row. Inr (i, j + 1, result_rows @ [row]))
      else if j \<ge> length segments_new
      then and_then (mk (Some i) None ''REMOVED'') (\<lambda>row. Inr (i + 1, j, result_rows @ [row]))
      else if py_eq (segments_old ! i) (segments_new ! j)
      then and_then (mk (Some i) (Some j) []) (\<lambda>row. Inr (i + 1, j + 1, result_rows @ [row]))
      else (case py_index (drop j segments_new) (segments_old ! i) of
              Some next_match_new \<Rightarrow> emit_new mk next_match_new (i, j, result_rows)
            | None \<Rightarrow>
                and_then (mk (Some i) None ''REMOVED'')
                  (\<lambda>row. Inr (i + 1, j, result_rows @ [row]))))"

text \<open>
  The \<^verbatim>\<open>while i < len(segments_old) or j < len(segments_new)\<close> loop. Each pass uses one
  unit of fuel; \<open>None\<close> means the fuel ran out while the loop condition still held.
\<close>

fun align_loop ::
  "nat \<Rightarrow> (nat option \<Rightarrow> nat option \<Rightarrow> string \<Rightarrow> error + 'r) \<Rightarrow> cell list \<Rightarrow> cell list
     \<Rightarrow> 'r loop_state \<Rightarrow> (error + 'r loop_state) option"
where
  "align_loop 0 mk segments_old segments_new (i, j, result_rows) =
     (if i < length segments_old \<or> j < length segments_new
      then None
      else Some (Inr (i, j, result_rows)))"
| "align_loop (Suc fuel) mk segments_old segments_new (i, j, result_rows) =
     (if i < length segments_old \<or> j < length segments_new
      then (case loop_body mk segments_old segments_new (i, j, result_rows) of
              Inl e \<Rightarrow> Some (Inl e)
            | Inr st \<Rightarrow> align_loop fuel mk segments_old segments_new st)
      else Some (Inr (i, j, result_rows)))"

definition column_order :: "DataFrame \<Rightarrow> DataFrame \<Rightarrow> string \<Rightarrow> string \<Rightarrow> string list" where
  "column_order previous_pruefid subsequent_pruefid previous_formatversion subsequent_formatversion =
     [segmentname_col previous_formatversion]
     @ map (\<lambda>col. suffixed col previous_formatversion)
           (filter (\<lambda>col. col \<noteq> ''Segmentname'') (columns previous_pruefid))
     @ [''diff'']
     @ [segmentname_col subsequent_formatversion]
     @ map (\<lambda>col. suffixed col subsequent_formatversion)
           (filter (\<lambda>col. col \<noteq> ''Segmentname'') (columns subsequent_pruefid))"

text \<open>A list comprehension over \<^verbatim>\<open>range(n)\<close> whose element expression may raise.\<close>

fun collect :: "(nat \<Rightarrow> error + 'a) \<Rightarrow> nat list \<Rightarrow> error + 'a list" where
  "collect f [] = Inr []"
| "collect f (n # ns) = and_then (f n) (\<lambda>x. and_then (collect f ns) (\<lambda>xs. Inr (x # xs)))"

definition align_columns ::
  "nat \<Rightarrow> DataFrame \<Rightarrow> DataFrame \<Rightarrow> string \<Rightarrow> string \<Rightarrow> (error + DataFrame) option"
where
  "align_columns fuel previous_pruefid subsequent_pruefid previous_formatversion subsequent_formatversion =
     (let df_old = rename_segmentname previous_formatversion previous_pruefid;
          df_new = rename_segmentname subsequent_formatversion subsequent_pruefid;
          order = column_order previous_pruefid subsequent_pruefid
                    previous_formatversion subsequent_formatversion;
          mk = tagged_row df_old df_new previous_formatversion subsequent_formatversion
      in if df_empty df_old \<and> df_empty df_new
         then Some (Inr \<lparr>columns = first_seen order, rows = []\<rparr>)
         else if df_empty df_new
         then Some (and_then (collect (\<lambda>i. mk (Some i) None ''REMOVED'') [0..<length (rows df_old)])
                      (\<lambda>result_rows. select_columns (from_records result_rows) order))
         else if df_empty df_old
         then Some (and_then (collect (\<lambda>j. mk None (Some j) ''NEW'') [0..<length (rows df_new)])
                      (\<lambda>result_rows. select_columns (from_records result_rows) order))
         else (case column_values df_old (segmentname_col previous_formatversion) of
                 Inl e \<Rightarrow> Some (Inl e)
               | Inr segments_old \<Rightarrow>
                   (case column_values df_new (segmentname_col subsequent_formatversion) of
                      Inl e \<Rightarrow> Some (Inl e)
                    | Inr segments_new \<Rightarrow>
                        (case align_loop fuel mk segments_old segments_new (0, 0, []) of
                           None \<Rightarrow> None
                         | Some (Inl e) \<Rightarrow> Some (Inl e)
                         | Some (Inr (i, j, result_rows)) \<Rightarrow>
                             Some (select_columns
                                     (map_cells astype_str_replace_nan (from_records result_rows))
                                     order)))))"

section \<open>Notions used to state the properties\<close>

text \<open>
  The version tag grammar as the specification words it: \<^verbatim>\<open>FV\<close> followed by four
  digits, the last two a month from 1 to 12.
\<close>

definition spec_version_tag :: "string \<Rightarrow> bool" where
  "spec_version_tag s =
     (length s = 6 \<and> take 2 s = ''FV'' \<and> list_all is_digit (drop 2 s) \<and>
      1 \<le> 10 * digit_val (s ! 4) + digit_val (s ! 5) \<and>
      10 * digit_val (s ! 4) + digit_val (s ! 5) \<le> 12)"

text \<open>The entries of a directory have pairwise different names.\<close>

definition wf_tree :: "tree \<Rightarrow> bool" where
  "wf_tree t = (case t of Some (Dir es) \<Rightarrow> distinct (map fst es) | _ \<Rightarrow> True)"

text \<open>Both directories of a candidate pair pass the emptiness test of the loop.\<close>

definition both_nonempty :: "tree \<Rightarrow> string \<times> string \<Rightarrow> bool" where
  "both_nonempty t =
     (\<lambda>(s, p). is_formatversion_empty t s = Inr False \<and> is_formatversion_empty t p = Inr False)"

text \<open>
  The pairing rule as the specification words it: the adjacent pairs of the sublist of
  non-empty version directories.
\<close>

definition spec_consecutive_pairs :: "tree \<Rightarrow> string list \<Rightarrow> (string \<times> string) list" where
  "spec_consecutive_pairs t fl =
     (let nonempty = filter (\<lambda>fv. is_formatversion_empty t fv = Inr False) fl
      in zip nonempty (tl nonempty))"

text \<open>
  Well-formed input table for a version tag: the column labels are pairwise different
  (as \<^verbatim>\<open>read_csv\<close> makes them), the mandatory key column \<^verbatim>\<open>Segmentname\<close> is present,
  no column already carries the label the key column is renamed to, and every row has one
  cell per column.
\<close>

definition wf_table :: "string \<Rightarrow> DataFrame \<Rightarrow> bool" where
  "wf_table formatversion df =
     (distinct (columns df) \<and> ''Segmentname'' \<in> set (columns df) \<and>
      segmentname_col formatversion \<notin> set (columns df) \<and>
      list_all (\<lambda>r. length r = length (columns df)) (rows df))"

text \<open>
  The two version tags of a comparison, as \<^verbatim>\<open>determine_consecutive_formatversions\<close>
  hands them over: two different directory names that \<^verbatim>\<open>parse_formatversions\<close> accepted
  when the directories were sorted.
\<close>

definition valid_tags :: "string \<Rightarrow> string \<Rightarrow> bool" where
  "valid_tags previous_formatversion subsequent_formatversion =
     (\<not> isl (parse_formatversions previous_formatversion) \<and>
      \<not> isl (parse_formatversions subsequent_formatversion) \<and>
      previous_formatversion \<noteq> subsequent_formatversion)"

text \<open>The data columns of a table, the cell of a row, and the key column as a list.\<close>

definition data_columns :: "DataFrame \<Rightarrow> string list" where
  "data_columns df = filter (\<lambda>col. col \<noteq> ''Segmentname'') (columns df)"

definition cell_of :: "DataFrame \<Rightarrow> nat \<Rightarrow> string \<Rightarrow> cell" where
  "cell_of df idx col = (case row_map (columns df) (rows df ! idx) col of None \<Rightarrow> NaN | Some v \<Rightarrow> v)"

definition keys_of :: "DataFrame \<Rightarrow> cell list" where
  "keys_of df = map (\<lambda>idx. cell_of df idx ''Segmentname'') [0..<length (rows df)]"

text \<open>
  A decision of the alignment engine: the diff tag and the indices of the contributing
  previous and subsequent row. Running the loop with \<open>decide\<close> for \<open>mk\<close> yields the
  decisions instead of the rows built from them.
\<close>

type_synonym decision = "string \<times> nat option \<times> nat option"

definition decide :: "nat option \<Rightarrow> nat option \<Rightarrow> string \<Rightarrow> error + decision" where
  "decide i j tag = Inr (tag, i, j)"

text \<open>
  The merged row of a decision, written out in the column order of the merged table:
  the values of the previous side, the diff tag, the values of the subsequent side. A
  side without a contributing row is blank; a side with one carries the key cell and
  the data cells of that row, a missing data cell as the empty string.
\<close>

definition blank_nan :: "cell \<Rightarrow> cell" where
  "blank_nan v = (if v = NaN then Str [] else v)"

definition side_cell :: "DataFrame \<Rightarrow> nat option \<Rightarrow> string \<Rightarrow> cell" where
  "side_cell df idx col =
     (case idx of
        None \<Rightarrow> Str []
      | Some n \<Rightarrow> if col = ''Segmentname'' then cell_of df n col else blank_nan (cell_of df n col))"

definition side_values :: "DataFrame \<Rightarrow> nat option \<Rightarrow> cell list" where
  "side_values df idx = map (side_cell df idx) (''Segmentname'' # data_columns df)"

definition merged_row :: "DataFrame \<Rightarrow> DataFrame \<Rightarrow> decision \<Rightarrow> cell list" where
  "merged_row p s d = (case d of (tag, i, j) \<Rightarrow> side_values p i @ [Str tag] @ side_values s j)"

text \<open>The value a row dictionary holds for a column, the missing value when it has none.\<close>

definition lookup :: "row \<Rightarrow> string \<Rightarrow> cell" where
  "lookup r c = (case map_of r c of None \<Rightarrow> NaN | Some v \<Rightarrow> v)"

text \<open>
  The previous rows and the subsequent rows a sequence of decisions covers, in the order
  of the decisions.
\<close>

definition previous_rows :: "decision list \<Rightarrow> nat list" where
  "previous_rows ds = concat (map (\<lambda>(tag, i, j). case i of None \<Rightarrow> [] | Some n \<Rightarrow> [n]) ds)"

definition subsequent_rows :: "decision list \<Rightarrow> nat list" where
  "subsequent_rows ds = concat (map (\<lambda>(tag, i, j). case j of None \<Rightarrow> [] | Some n \<Rightarrow> [n]) ds)"

text \<open>
  The three kinds of decision: an unchanged pairing of two rows whose keys compare equal,
  a removal of a previous row, an addition of a subsequent row.
\<close>

fun valid_decision :: "cell list \<Rightarrow> cell list \<Rightarrow> decision \<Rightarrow> bool" where
  "valid_decision old new (tag, Some i, Some j) =
     (tag = [] \<and> i < length old \<and> j < length new \<and> py_eq (old ! i) (new ! j))"
| "valid_decision old new (tag, Some i, None) = (tag = ''REMOVED'' \<and> i < length old)"
| "valid_decision old new (tag, None, Some j) = (tag = ''NEW'' \<and> j < length new)"
| "valid_decision old new (tag, None, None) = False"

text \<open>The invariant of the alignment loop, on the decisions taken so far.\<close>

fun loop_inv :: "cell list \<Rightarrow> cell list \<Rightarrow> decision loop_state \<Rightarrow> bool" where
  "loop_inv old new (i, j, ds) =
     (i \<le> length old \<and> j \<le> length new \<and>
      previous_rows ds = [0..<i] \<and> subsequent_rows ds = [0..<j] \<and>
      list_all (valid_decision old new) ds)"

section \<open>Properties of version tag parsing\<close>

lemma py_int_two_digits:
  assumes "is_digit a" "is_digit b"
  shows "py_int [a, b] = Some (int (10 * digit_val a + digit_val b))"
proof -
  have na: "\<not> py_isspace a" "\<not> py_isspace b" "a \<noteq> CHR ''+''" "a \<noteq> CHR ''-''"
    using assms by (auto simp: is_digit_def py_isspace_def)
  show ?thesis using assms na by (simp add: py_int_def py_strip_def)
qed

text \<open>Every tag of the grammar is parsed, to the year and month it denotes.\<close>

lemma parse_formatversions_grammar:
  assumes "spec_version_tag s"
  shows "parse_formatversions s =
           Inr (2000 + int (10 * digit_val (s ! 2) + digit_val (s ! 3)),
                int (10 * digit_val (s ! 4) + digit_val (s ! 5)))"
proof -
  from assms have "length s = 6" by (simp add: spec_version_tag_def)
  then obtain p q a b c d where s0: "s = [p, q, a, b, c, d]"
    by (auto simp: length_Suc_conv eval_nat_numeral)
  with assms have s: "s = [CHR ''F'', CHR ''V'', a, b, c, d]"
    by (simp add: spec_version_tag_def)
  from assms s have dg: "is_digit a" "is_digit b" "is_digit c" "is_digit d"
    and m: "1 \<le> 10 * digit_val c + digit_val d" "10 * digit_val c + digit_val d \<le> 12"
    by (auto simp: spec_version_tag_def)
  show ?thesis using m
    by (simp add: s parse_formatversions_def startswith_def py_int_two_digits dg)
qed

text \<open>A parsed tag has six characters and starts with \<^verbatim>\<open>FV\<close>.\<close>

lemma parse_formatversions_requires_shape:
  "parse_formatversions s = Inr ym \<Longrightarrow> length s = 6 \<and> take 2 s = ''FV''"
  by (auto simp: parse_formatversions_def startswith_def eval_nat_numeral split: if_splits)

text \<open>
  C8. The claim: parsing succeeds exactly for \<^verbatim>\<open>FV\<close> followed by four digits with a month
  from 1 to 12, and every other string raises. The code leaves the digit test to
  \<^verbatim>\<open>int()\<close>, which also accepts a sign or white space: the tag \<^verbatim>\<open>FV-112\<close> is not of
  the grammar, and it is parsed, to December 1999.
\<close>

theorem parse_formatversions_accepts_signed_tag:
  "\<not> spec_version_tag ''FV-112'' \<and> parse_formatversions ''FV-112'' = Inr (1999, 12)"
  by (simp add: spec_version_tag_def parse_formatversions_def startswith_def py_int_def
      py_strip_def py_isspace_def is_digit_def digit_val_def)

theorem parse_formatversions_accepts_signed_tag_witness:
  "parse_formatversions ''FV-112'' = Inr (1999, 12)"
  using parse_formatversions_accepts_signed_tag by simp

section \<open>Properties of the pairing of version directories\<close>

lemma sort_keys_names: "sort_keys ds = Inr ks \<Longrightarrow> map snd ks = ds"
  by (induction ds arbitrary: ks) (auto split: sum.splits)

lemma sort_keys_parsed: "sort_keys ds = Inr ks \<Longrightarrow> (k, d) \<in> set ks \<Longrightarrow> parse_formatversions d = Inr k"
  by (induction ds arbitrary: ks) (auto split: sum.splits)

lemma set_sort_reverse: "set (sort_reverse ks) = snd ` set ks"
  by (simp add: sort_reverse_def)

lemma available_are_dirs:
  assumes "get_available_formatversions t = Inr fl" "fv \<in> set fl"
  shows "\<exists>es d. t = Some (Dir es) \<and> (fv, d) \<in> set es \<and> is_dir d"
proof -
  from assms obtain es ks where t: "t = Some (Dir es)"
    and ks: "sort_keys (map fst (filter (\<lambda>(name, d). is_dir d \<and> startswith name ''FV'' \<and> length name = 6) es)) = Inr ks"
    and fl: "fl = sort_reverse ks"
    by (auto simp: get_available_formatversions_def split: option.splits node.splits sum.splits)
  from sort_keys_names[OF ks]
  have "snd ` set ks = fst ` set (filter (\<lambda>(name, d). is_dir d \<and> startswith name ''FV'' \<and> length name = 6) es)"
    by (metis list.set_map)
  with assms(2) fl
  have "fv \<in> fst ` set (filter (\<lambda>(name, d). is_dir d \<and> startswith name ''FV'' \<and> length name = 6) es)"
    by (simp add: set_sort_reverse)
  then show ?thesis using t by auto
qed

lemma available_empty_defined:
  assumes "wf_tree t" "get_available_formatversions t = Inr fl" "fv \<in> set fl"
  shows "\<exists>b. is_formatversion_empty t fv = Inr b"
proof -
  from available_are_dirs[OF assms(2,3)] obtain es d where
    t: "t = Some (Dir es)" and d: "(fv, d) \<in> set es" "is_dir d" by blast
  from assms(1) t have "distinct (map fst es)" by (simp add: wf_tree_def)
  with d have "map_of es fv = Some d" by simp
  moreover from d(2) obtain ds where "d = Dir ds" by (cases d) auto
  ultimately show ?thesis
    by (simp add: is_formatversion_empty_def formatversion_dir_def t get_nachrichtenformat_dirs_def)
qed

text \<open>The list of available version directories is in descending order of (year, month).\<close>

lemma available_descending:
  assumes "get_available_formatversions t = Inr fl"
  shows "\<exists>ks. map snd ks = fl \<and> sorted (rev (map fst ks)) \<and>
              (\<forall>(k, d)\<in>set ks. parse_formatversions d = Inr k)"
proof (cases t)
  case None
  with assms show ?thesis by (auto simp: get_available_formatversions_def)
next
  case (Some n)
  with assms obtain es ks where
    ks: "sort_keys (map fst (filter (\<lambda>(name, d). is_dir d \<and> startswith name ''FV'' \<and> length name = 6) es)) = Inr ks"
    and fl: "fl = sort_reverse ks"
    by (auto simp: get_available_formatversions_def split: node.splits sum.splits)
  let ?ks = "rev (sort_key fst (rev ks))"
  have "map snd ?ks = fl" by (simp add: fl sort_reverse_def)
  moreover have "sorted (rev (map fst ?ks))" by (simp add: rev_map)
  moreover have "\<forall>(k, d)\<in>set ?ks. parse_formatversions d = Inr k"
    using sort_keys_parsed[OF ks] by auto
  ultimately show ?thesis by blast
qed

lemma pair_loop_filter:
  assumes "\<forall>i\<in>set is. (\<exists>b. is_formatversion_empty t (fl ! i) = Inr b) \<and>
                       (\<exists>b. is_formatversion_empty t (fl ! (i + 1)) = Inr b)"
  shows "pair_loop t fl is acc =
           Inr (acc @ filter (both_nonempty t) (map (\<lambda>i. (fl ! i, fl ! (i + 1))) is))"
  using assms
proof (induction "is" arbitrary: acc)
  case Nil
  then show ?case by simp
next
  case (Cons i "is")
  from Cons.prems obtain b1 b2 where b: "is_formatversion_empty t (fl ! i) = Inr b1"
      "is_formatversion_empty t (fl ! (i + 1)) = Inr b2" by auto
  from Cons.prems
  have rest: "\<forall>i\<in>set is. (\<exists>b. is_formatversion_empty t (fl ! i) = Inr b) \<and>
                          (\<exists>b. is_formatversion_empty t (fl ! (i + 1)) = Inr b)"
    by simp
  show ?case using b Cons.IH[OF rest]
    by (cases b1; cases b2) (simp_all add: both_nonempty_def)
qed

lemma zip_tl_nth: "zip fl (tl fl) = map (\<lambda>i. (fl ! i, fl ! (i + 1))) [0..<length fl - 1]"
  by (rule nth_equalityI) (auto simp: nth_tl)

text \<open>
  C7, as the claim states it, fails: a non-empty directory is not paired across an empty
  one. With \<^verbatim>\<open>FV2410\<close> empty between the non-empty \<^verbatim>\<open>FV2504\<close> and \<^verbatim>\<open>FV2404\<close> the code
  produces no pair, while the adjacent pairs of the non-empty sublist are
  \<^verbatim>\<open>(FV2504, FV2404)\<close>.
\<close>

theorem pairing_across_empty_counterexample:
  "get_available_formatversions
     (Some (Dir [(''FV2404'', Dir [(''UTILMD'', Dir [(''csv'', Dir [])])]),
                 (''FV2410'', Dir []),
                 (''FV2504'', Dir [(''UTILMD'', Dir [(''csv'', Dir [])])])]))
     = Inr [''FV2504'', ''FV2410'', ''FV2404'']
   \<and> determine_consecutive_formatversions
       (Some (Dir [(''FV2404'', Dir [(''UTILMD'', Dir [(''csv'', Dir [])])]),
                   (''FV2410'', Dir []),
                   (''FV2504'', Dir [(''UTILMD'', Dir [(''csv'', Dir [])])])]))
     = Inr []
   \<and> spec_consecutive_pairs
       (Some (Dir [(''FV2404'', Dir [(''UTILMD'', Dir [(''csv'', Dir [])])]),
                   (''FV2410'', Dir []),
                   (''FV2504'', Dir [(''UTILMD'', Dir [(''csv'', Dir [])])])]))
       [''FV2504'', ''FV2410'', ''FV2404'']
     = [(''FV2504'', ''FV2404'')]"
  by code_simp

text \<open>
  C7, amended: the pairs produced are exactly the adjacent pairs of the descending list
  of all available version directories of which both directories are non-empty, in the
  order of that list.
\<close>

theorem determine_consecutive_formatversions_adjacent:
  assumes "wf_tree t" "get_available_formatversions t = Inr fl"
  shows "determine_consecutive_formatversions t = Inr (filter (both_nonempty t) (zip fl (tl fl)))"
proof -
  have "\<forall>i\<in>set [0..<length fl - 1]. (\<exists>b. is_formatversion_empty t (fl ! i) = Inr b) \<and>
                                      (\<exists>b. is_formatversion_empty t (fl ! (i + 1)) = Inr b)"
    using available_empty_defined[OF assms] by auto
  from pair_loop_filter[OF this, of "[]"] show ?thesis
    by (simp add: determine_consecutive_formatversions_def assms(2) zip_tl_nth)
qed

theorem determine_consecutive_formatversions_adjacent_witness:
  "wf_tree (Some (Dir [(''FV2310'', Dir [(''MSCONS'', Dir [(''csv'', Dir [])])]),
                       (''FV2404'', Dir [(''notes.txt'', File)]),
                       (''FV2410'', Dir [(''UTILMD'', Dir [(''csv'', Dir [])])]),
                       (''FV2504'', Dir [(''UTILMD'', Dir [(''csv'', Dir [])])])]))
   \<and> get_available_formatversions
       (Some (Dir [(''FV2310'', Dir [(''MSCONS'', Dir [(''csv'', Dir [])])]),
                   (''FV2404'', Dir [(''notes.txt'', File)]),
                   (''FV2410'', Dir [(''UTILMD'', Dir [(''csv'', Dir [])])]),
                   (''FV2504'', Dir [(''UTILMD'', Dir [(''csv'', Dir [])])])]))
     = Inr [''FV2504'', ''FV2410'', ''FV2404'', ''FV2310'']
   \<and> determine_consecutive_formatversions
       (Some (Dir [(''FV2310'', Dir [(''MSCONS'', Dir [(''csv'', Dir [])])]),
                   (''FV2404'', Dir [(''notes.txt'', File)]),
                   (''FV2410'', Dir [(''UTILMD'', Dir [(''csv'', Dir [])])]),
                   (''FV2504'', Dir [(''UTILMD'', Dir [(''csv'', Dir [])])])]))
     = Inr [(''FV2504'', ''FV2410'')]"
proof -
  let ?t = "Some (Dir [(''FV2310'', Dir [(''MSCONS'', Dir [(''csv'', Dir [])])]),
                       (''FV2404'', Dir [(''notes.txt'', File)]),
                       (''FV2410'', Dir [(''UTILMD'', Dir [(''csv'', Dir [])])]),
                       (''FV2504'', Dir [(''UTILMD'', Dir [(''csv'', Dir [])])])])"
  have w: "wf_tree ?t" by (simp add: wf_tree_def)
  have a: "get_available_formatversions ?t = Inr [''FV2504'', ''FV2410'', ''FV2404'', ''FV2310'']"
    by code_simp
  have f: "filter (both_nonempty ?t)
             (zip [''FV2504'', ''FV2410'', ''FV2404'', ''FV2310'']
                  (tl [''FV2504'', ''FV2410'', ''FV2404'', ''FV2310'']))
           = [(''FV2504'', ''FV2410'')]"
    by code_simp
  show ?thesis
    using determine_consecutive_formatversions_adjacent[OF w a] w a f by simp
qed

section \<open>Properties of the row builder\<close>

lemma suffixed_inj: "suffixed c fv = suffixed c' fv \<longleftrightarrow> c = c'"
  by (simp add: suffixed_def)

lemma segmentname_col_suffixed: "segmentname_col fv = suffixed ''Segmentname'' fv"
  by (simp add: segmentname_col_def suffixed_def)

lemma suffixed_not_diff: "suffixed c fv \<noteq> ''diff''"
proof
  assume "suffixed c fv = ''diff''"
  then have "CHR ''_'' \<in> set ''diff''" by (metis in_set_conv_decomp suffixed_def append_Cons append_Nil)
  then show False by simp
qed

lemma suffixed_cross:
  assumes "length pv = length sv" "pv \<noteq> sv"
  shows "suffixed c pv \<noteq> suffixed c' sv"
proof
  assume "suffixed c pv = suffixed c' sv"
  then have "(c @ ''_'') @ pv = (c' @ ''_'') @ sv" by (simp add: suffixed_def)
  with assms(1) have "pv = sv" using append_eq_append_conv by blast
  with assms(2) show False by simp
qed

lemma valid_tags_length: "valid_tags pv sv \<Longrightarrow> length pv = length sv \<and> pv \<noteq> sv"
  by (auto simp: valid_tags_def parse_formatversions_def split: if_splits)

lemma map_of_blank_columns:
  "map_of (blank_columns cols fv row) k =
     (if k \<in> (\<lambda>c. suffixed c fv) ` {c \<in> set cols. c \<noteq> segmentname_col fv} then Some (Str [])
      else map_of row k)"
  unfolding blank_columns_def
  by (induction cols arbitrary: row) (auto simp: update_conv')

lemma keys_blank_columns:
  "fst ` set (blank_columns cols fv row) =
     fst ` set row \<union> (\<lambda>c. suffixed c fv) ` {c \<in> set cols. c \<noteq> segmentname_col fv}"
  unfolding blank_columns_def
  by (induction cols arbitrary: row) (auto simp: dom_update)


lemma row_map_rename:
  assumes "inj_on f (insert c (set cols))"
  shows "row_map (map f cols) r (f c) = row_map cols r c"
  using assms unfolding row_map_def
proof (induction cols arbitrary: r)
  case Nil
  then show ?case by simp
next
  case (Cons a cols)
  show ?case
  proof (cases r)
    case Nil
    then show ?thesis by simp
  next
    case (Cons v vs)
    from Cons.prems have inj: "inj_on f (insert c (set cols))"
      by (auto simp: inj_on_def)
    from Cons.prems have "f c = f a \<longleftrightarrow> c = a" by (auto simp: inj_on_def)
    with Cons.IH[OF inj, of vs] Cons show ?thesis by auto
  qed
qed

lemma row_map_Some:
  assumes "c \<in> set cols" "length r = length cols"
  shows "\<exists>v. row_map cols r c = Some v"
proof -
  from assms have "c \<in> fst ` set (zip cols r)" by (metis map_fst_zip list.set_map)
  then show ?thesis unfolding row_map_def by (metis domIff dom_map_of_conv_image_fst not_None_eq)
qed

lemma iloc_get_cell_of:
  assumes "idx < length (rows df)" "c \<in> set (columns df)"
    "length (rows df ! idx) = length (columns df)"
  shows "iloc_get df idx c = Inr (cell_of df idx c)"
  using row_map_Some[OF assms(2), of "rows df ! idx"] assms(1,3)
  by (auto simp: iloc_get_def cell_of_def)

lemma populate_columns_lookup:
  assumes "idx < length (rows df)" "length (rows df ! idx) = length (columns df)"
    "set cols \<subseteq> set (columns df)"
  shows "\<exists>row'. populate_columns df idx fv cols row = Inr row' \<and>
           fst ` set row' = fst ` set row \<union> (\<lambda>c. suffixed c fv) ` {c \<in> set cols. c \<noteq> segmentname_col fv} \<and>
           (\<forall>k. k \<notin> (\<lambda>c. suffixed c fv) ` {c \<in> set cols. c \<noteq> segmentname_col fv} \<longrightarrow> map_of row' k = map_of row k) \<and>
           (\<forall>c\<in>set cols. c \<noteq> segmentname_col fv \<longrightarrow>
               map_of row' (suffixed c fv) = Some (blank_nan (cell_of df idx c)))"
  using assms(3)
proof (induction cols arbitrary: row)
  case Nil
  then show ?case by simp
next
  case (Cons col cols)
  from Cons.prems have sub: "set cols \<subseteq> set (columns df)" and colin: "col \<in> set (columns df)" by auto
  show ?case
  proof (cases "col = segmentname_col fv")
    case True
    from Cons.IH[OF sub, of row] obtain row' where
      r: "populate_columns df idx fv cols row = Inr row'"
      "fst ` set row' = fst ` set row \<union> (\<lambda>c. suffixed c fv) ` {c \<in> set cols. c \<noteq> segmentname_col fv}"
      "\<forall>k. k \<notin> (\<lambda>c. suffixed c fv) ` {c \<in> set cols. c \<noteq> segmentname_col fv} \<longrightarrow> map_of row' k = map_of row k"
      "\<forall>c\<in>set cols. c \<noteq> segmentname_col fv \<longrightarrow> map_of row' (suffixed c fv) = Some (blank_nan (cell_of df idx c))"
      by blast
    have eq: "{c \<in> set (col # cols). c \<noteq> segmentname_col fv} = {c \<in> set cols. c \<noteq> segmentname_col fv}"
      using True by auto
    show ?thesis unfolding eq using r True by auto
  next
    case False
    let ?row1 = "AList.update (suffixed col fv) (blank_nan (cell_of df idx col)) row"
    from Cons.IH[OF sub, of ?row1] obtain row' where
      r: "populate_columns df idx fv cols ?row1 = Inr row'"
      "fst ` set row' = fst ` set ?row1 \<union> (\<lambda>c. suffixed c fv) ` {c \<in> set cols. c \<noteq> segmentname_col fv}"
      "\<forall>k. k \<notin> (\<lambda>c. suffixed c fv) ` {c \<in> set cols. c \<noteq> segmentname_col fv} \<longrightarrow> map_of row' k = map_of ?row1 k"
      "\<forall>c\<in>set cols. c \<noteq> segmentname_col fv \<longrightarrow> map_of row' (suffixed c fv) = Some (blank_nan (cell_of df idx c))"
      by blast
    have eq: "{c \<in> set (col # cols). c \<noteq> segmentname_col fv} = insert col {c \<in> set cols. c \<noteq> segmentname_col fv}"
      using False by auto
    have run: "populate_columns df idx fv (col # cols) row = Inr row'"
      using False r(1) iloc_get_cell_of[OF assms(1) colin assms(2)]
      by (simp add: and_then_def blank_nan_def)
    have keys: "fst ` set row' = fst ` set row \<union> (\<lambda>c. suffixed c fv) ` insert col {c \<in> set cols. c \<noteq> segmentname_col fv}"
      using r(2) by (auto simp: dom_update)
    have other: "\<forall>k. k \<notin> (\<lambda>c. suffixed c fv) ` insert col {c \<in> set cols. c \<noteq> segmentname_col fv} \<longrightarrow> map_of row' k = map_of row k"
      using r(3) by (auto simp: update_conv')
    have own: "\<forall>c\<in>set (col # cols). c \<noteq> segmentname_col fv \<longrightarrow> map_of row' (suffixed c fv) = Some (blank_nan (cell_of df idx c))"
    proof (intro ballI impI)
      fix c assume c: "c \<in> set (col # cols)" "c \<noteq> segmentname_col fv"
      show "map_of row' (suffixed c fv) = Some (blank_nan (cell_of df idx c))"
      proof (cases "c \<in> set cols")
        case True
        with r(4) c(2) show ?thesis by blast
      next
        case False
        with c(1) have cc: "c = col" by simp
        from False have "suffixed c fv \<notin> (\<lambda>c. suffixed c fv) ` {c \<in> set cols. c \<noteq> segmentname_col fv}"
          by (auto simp: suffixed_inj)
        with r(3) have "map_of row' (suffixed c fv) = map_of ?row1 (suffixed c fv)" by blast
        then show ?thesis by (simp add: cc update_conv')
      qed
    qed
    show ?thesis unfolding eq using run keys other own by blast
  qed
qed


lemma rename_columns:
  assumes "wf_table fv df"
  shows "segmentname_col fv \<in> set (columns (rename_segmentname fv df))"
    and "filter (\<lambda>c. c \<noteq> segmentname_col fv) (columns (rename_segmentname fv df)) = data_columns df"
    and "{c \<in> set (columns (rename_segmentname fv df)). c \<noteq> segmentname_col fv} = set (data_columns df)"
    and "rows (rename_segmentname fv df) = rows df"
    and "set (data_columns df) \<subseteq> set (columns (rename_segmentname fv df))"
proof -
  let ?f = "\<lambda>c. if c = ''Segmentname'' then segmentname_col fv else c"
  from assms have seg: "''Segmentname'' \<in> set (columns df)" and nin: "segmentname_col fv \<notin> set (columns df)"
    by (auto simp: wf_table_def)
  show "segmentname_col fv \<in> set (columns (rename_segmentname fv df))"
    using seg by (auto simp: rename_segmentname_def)
  have "filter (\<lambda>c. c \<noteq> segmentname_col fv) (map ?f cols) = filter (\<lambda>col. col \<noteq> ''Segmentname'') cols"
    if "segmentname_col fv \<notin> set cols" for cols
    using that by (induction cols) auto
  from this[OF nin]
  show f: "filter (\<lambda>c. c \<noteq> segmentname_col fv) (columns (rename_segmentname fv df)) = data_columns df"
    by (simp add: rename_segmentname_def data_columns_def)
  show "{c \<in> set (columns (rename_segmentname fv df)). c \<noteq> segmentname_col fv} = set (data_columns df)"
    using f by (metis set_filter)
  then show "set (data_columns df) \<subseteq> set (columns (rename_segmentname fv df))" by blast
  show "rows (rename_segmentname fv df) = rows df" by (simp add: rename_segmentname_def)
qed

lemma rename_cell_of:
  assumes "wf_table fv df"
  shows "cell_of (rename_segmentname fv df) idx (segmentname_col fv) = cell_of df idx ''Segmentname''"
    and "c \<in> set (data_columns df) \<Longrightarrow> cell_of (rename_segmentname fv df) idx c = cell_of df idx c"
proof -
  let ?f = "\<lambda>c. if c = ''Segmentname'' then segmentname_col fv else c"
  from assms have nin: "segmentname_col fv \<notin> set (columns df)"
    by (auto simp: wf_table_def)
  have inj: "inj_on ?f (insert c (set (columns df)))" if "c \<noteq> segmentname_col fv" for c
    using nin that by (auto simp: inj_on_def)
  have neq: "''Segmentname'' \<noteq> segmentname_col fv" by (simp add: segmentname_col_def)
  from row_map_rename[OF inj[OF neq], of "rows df ! idx"]
  show "cell_of (rename_segmentname fv df) idx (segmentname_col fv) = cell_of df idx ''Segmentname''"
    by (simp add: cell_of_def rename_segmentname_def)
  assume c: "c \<in> set (data_columns df)"
  then have "c \<noteq> segmentname_col fv" "c \<noteq> ''Segmentname''" using nin by (auto simp: data_columns_def)
  with row_map_rename[OF inj, of c "rows df ! idx"]
  show "cell_of (rename_segmentname fv df) idx c = cell_of df idx c"
    by (simp add: cell_of_def rename_segmentname_def)
qed

lemma rename_row_length:
  assumes "wf_table fv df" "idx < length (rows df)"
  shows "length (rows (rename_segmentname fv df) ! idx) = length (columns (rename_segmentname fv df))"
  using assms by (auto simp: wf_table_def rename_segmentname_def list_all_length)

lemma populate_side:
  assumes wf: "wf_table fv df" and ix: "case idx of None \<Rightarrow> True | Some n \<Rightarrow> n < length (rows df)"
    and blank: "\<forall>c\<in>set (data_columns df). map_of row (suffixed c fv) = Some (Str [])"
  shows "\<exists>row'. populate_row_values (Some (rename_segmentname fv df)) row idx fv False = Inr row' \<and>
           fst ` set row' = fst ` set row \<union> (\<lambda>c. suffixed c fv) ` set (data_columns df) \<and>
           (\<forall>k. k \<notin> (\<lambda>c. suffixed c fv) ` set (data_columns df) \<longrightarrow> map_of row' k = map_of row k) \<and>
           (\<forall>c\<in>set (data_columns df). map_of row' (suffixed c fv) = Some (side_cell df idx c))"
proof (cases idx)
  case None
  have "fst ` set row = fst ` set row \<union> (\<lambda>c. suffixed c fv) ` set (data_columns df)"
    using blank by (auto intro: domI simp: dom_map_of_conv_image_fst[symmetric])
  with None blank show ?thesis by (auto simp: populate_row_values_def side_cell_def)
next
  case (Some n)
  let ?df = "rename_segmentname fv df"
  from Some ix have n: "n < length (rows ?df)" by (simp add: rename_columns(4)[OF wf])
  from Some ix have len: "length (rows ?df ! n) = length (columns ?df)"
    using rename_row_length[OF wf] by simp
  from populate_columns_lookup[OF n len subset_refl, of fv row]
  obtain row' where r: "populate_columns ?df n fv (columns ?df) row = Inr row'"
    "fst ` set row' = fst ` set row \<union> (\<lambda>c. suffixed c fv) ` {c \<in> set (columns ?df). c \<noteq> segmentname_col fv}"
    "\<forall>k. k \<notin> (\<lambda>c. suffixed c fv) ` {c \<in> set (columns ?df). c \<noteq> segmentname_col fv} \<longrightarrow> map_of row' k = map_of row k"
    "\<forall>c\<in>set (columns ?df). c \<noteq> segmentname_col fv \<longrightarrow> map_of row' (suffixed c fv) = Some (blank_nan (cell_of ?df n c))"
    by blast
  note eq = rename_columns(3)[OF wf]
  have "\<forall>c\<in>set (data_columns df). map_of row' (suffixed c fv) = Some (side_cell df idx c)"
  proof
    fix c assume c: "c \<in> set (data_columns df)"
    then have "c \<in> set (columns ?df)" "c \<noteq> segmentname_col fv" using eq by auto
    with r(4) have "map_of row' (suffixed c fv) = Some (blank_nan (cell_of ?df n c))" by blast
    moreover from c have "c \<noteq> ''Segmentname''" by (simp add: data_columns_def)
    ultimately show "map_of row' (suffixed c fv) = Some (side_cell df idx c)"
      using rename_cell_of(2)[OF wf c] Some by (simp add: side_cell_def)
  qed
  with r(1,2,3) Some show ?thesis unfolding eq by (simp add: populate_row_values_def)
qed

lemma populate_key:
  assumes wf: "wf_table fv df" and ix: "case idx of None \<Rightarrow> True | Some n \<Rightarrow> n < length (rows df)"
    and blank: "map_of row (segmentname_col fv) = Some (Str [])"
  shows "\<exists>row'. populate_row_values (Some (rename_segmentname fv df)) row idx fv True = Inr row' \<and>
           fst ` set row' = fst ` set row \<and>
           (\<forall>k. k \<noteq> segmentname_col fv \<longrightarrow> map_of row' k = map_of row k) \<and>
           map_of row' (segmentname_col fv) = Some (side_cell df idx ''Segmentname'')"
proof (cases idx)
  case None
  with blank show ?thesis by (simp add: populate_row_values_def side_cell_def)
next
  case (Some n)
  let ?df = "rename_segmentname fv df"
  from Some ix have n: "n < length (rows ?df)" by (simp add: rename_columns(4)[OF wf])
  from Some ix have len: "length (rows ?df ! n) = length (columns ?df)"
    using rename_row_length[OF wf] by simp
  have "fst ` set row = insert (segmentname_col fv) (fst ` set row)"
    using blank by (auto intro: domI simp: dom_map_of_conv_image_fst[symmetric])
  then show ?thesis
    using iloc_get_cell_of[OF n rename_columns(1)[OF wf] len] Some rename_cell_of(1)[OF wf, of n]
    by (auto simp: populate_row_values_def and_then_def update_conv' dom_update side_cell_def)
qed


lemma create_row_lookup:
  assumes wfp: "wf_table pv p" and wfs: "wf_table sv s" and tags: "valid_tags pv sv"
    and ip: "case io of None \<Rightarrow> True | Some n \<Rightarrow> n < length (rows p)"
    and js: "case jo of None \<Rightarrow> True | Some n \<Rightarrow> n < length (rows s)"
  shows "\<exists>row. create_row (Some (rename_segmentname pv p)) (Some (rename_segmentname sv s)) io jo pv sv = Inr row \<and>
           fst ` set row = set (column_order p s pv sv) \<and>
           map_of row ''diff'' = Some (Str []) \<and>
           (\<forall>c\<in>set (''Segmentname'' # data_columns p). map_of row (suffixed c pv) = Some (side_cell p io c)) \<and>
           (\<forall>c\<in>set (''Segmentname'' # data_columns s). map_of row (suffixed c sv) = Some (side_cell s jo c))"
proof -
  let ?P = "rename_segmentname pv p" and ?S = "rename_segmentname sv s"
  let ?Kp = "(\<lambda>c. suffixed c pv) ` set (data_columns p)"
  let ?Ks = "(\<lambda>c. suffixed c sv) ` set (data_columns s)"
  note lens = valid_tags_length[OF tags]
  have x1: "suffixed c pv \<noteq> suffixed c' sv" "suffixed c' sv \<noteq> suffixed c pv" for c c'
    using suffixed_cross[of pv sv c c'] lens by auto
  have x2: "segmentname_col pv \<noteq> segmentname_col sv" "segmentname_col sv \<noteq> segmentname_col pv"
       "segmentname_col pv \<noteq> suffixed c sv" "segmentname_col sv \<noteq> suffixed c pv"
       "suffixed c sv \<noteq> segmentname_col pv" "suffixed c pv \<noteq> segmentname_col sv" for c
    using x1 by (simp_all add: segmentname_col_suffixed)
  have x3: "segmentname_col fv \<noteq> ''diff''" "''diff'' \<noteq> segmentname_col fv"
       "suffixed c fv \<noteq> ''diff''" "''diff'' \<noteq> suffixed c fv" for fv c
    by (metis suffixed_not_diff segmentname_col_suffixed)+
  have x4: "c \<in> set (data_columns df) \<Longrightarrow> suffixed c fv \<noteq> segmentname_col fv"
       "c \<in> set (data_columns df) \<Longrightarrow> segmentname_col fv \<noteq> suffixed c fv" for c df fv
    by (auto simp: segmentname_col_suffixed suffixed_inj data_columns_def)
  let ?row0 = "AList.update (segmentname_col sv) (Str [])
                 (AList.update ''diff'' (Str []) (AList.update (segmentname_col pv) (Str []) []))"
  let ?row1 = "blank_columns (columns ?P) pv ?row0"
  define row2 where "row2 = blank_columns (columns ?S) sv ?row1"
  note ep = rename_columns(3)[OF wfp] and es = rename_columns(3)[OF wfs]
  have m2: "map_of row2 k =
              (if k \<in> ?Ks then Some (Str []) else if k \<in> ?Kp then Some (Str [])
               else if k = segmentname_col sv then Some (Str [])
               else if k = ''diff'' then Some (Str [])
               else if k = segmentname_col pv then Some (Str []) else None)" for k
    by (simp add: row2_def map_of_blank_columns ep es update_conv')
  have k2: "fst ` set row2 = {segmentname_col pv, ''diff'', segmentname_col sv} \<union> ?Kp \<union> ?Ks"
    by (auto simp: row2_def keys_blank_columns ep es dom_update)
  have b3: "map_of row2 (segmentname_col pv) = Some (Str [])"
    using x2 x3 x4 by (auto simp: m2)
  from populate_key[OF wfp ip b3] obtain row3 where
    r3: "populate_row_values (Some ?P) row2 io pv True = Inr row3"
        "fst ` set row3 = fst ` set row2"
        "\<forall>k. k \<noteq> segmentname_col pv \<longrightarrow> map_of row3 k = map_of row2 k"
        "map_of row3 (segmentname_col pv) = Some (side_cell p io ''Segmentname'')"
    by blast
  have b4: "map_of row3 (segmentname_col sv) = Some (Str [])"
    using r3(3) x2 x3 x4 by (auto simp: m2)
  from populate_key[OF wfs js b4] obtain row4 where
    r4: "populate_row_values (Some ?S) row3 jo sv True = Inr row4"
        "fst ` set row4 = fst ` set row3"
        "\<forall>k. k \<noteq> segmentname_col sv \<longrightarrow> map_of row4 k = map_of row3 k"
        "map_of row4 (segmentname_col sv) = Some (side_cell s jo ''Segmentname'')"
    by blast
  have b5: "\<forall>c\<in>set (data_columns p). map_of row4 (suffixed c pv) = Some (Str [])"
    using r4(3) r3(3) x2 x4 by (auto simp: m2)
  from populate_side[OF wfp ip b5] obtain row5 where
    r5: "populate_row_values (Some ?P) row4 io pv False = Inr row5"
        "fst ` set row5 = fst ` set row4 \<union> ?Kp"
        "\<forall>k. k \<notin> ?Kp \<longrightarrow> map_of row5 k = map_of row4 k"
        "\<forall>c\<in>set (data_columns p). map_of row5 (suffixed c pv) = Some (side_cell p io c)"
    by blast
  have b6: "\<forall>c\<in>set (data_columns s). map_of row5 (suffixed c sv) = Some (Str [])"
  proof
    fix c assume c: "c \<in> set (data_columns s)"
    have "suffixed c sv \<notin> ?Kp" using x1(2) by blast
    with r5(3) have "map_of row5 (suffixed c sv) = map_of row4 (suffixed c sv)" by blast
    also have "\<dots> = map_of row3 (suffixed c sv)" using r4(3) x4(1)[OF c] by blast
    also have "\<dots> = map_of row2 (suffixed c sv)" using r3(3) x2(5) by blast
    also have "\<dots> = Some (Str [])" using c by (simp add: m2)
    finally show "map_of row5 (suffixed c sv) = Some (Str [])" .
  qed
  from populate_side[OF wfs js b6] obtain row6 where
    r6: "populate_row_values (Some ?S) row5 jo sv False = Inr row6"
        "fst ` set row6 = fst ` set row5 \<union> ?Ks"
        "\<forall>k. k \<notin> ?Ks \<longrightarrow> map_of row6 k = map_of row5 k"
        "\<forall>c\<in>set (data_columns s). map_of row6 (suffixed c sv) = Some (side_cell s jo c)"
    by blast
  have run: "create_row (Some ?P) (Some ?S) io jo pv sv = Inr row6"
    using r3(1) r4(1) r5(1) r6(1) by (simp add: create_row_def and_then_def row2_def)
  have keys: "fst ` set row6 = set (column_order p s pv sv)"
    unfolding r6(2) r5(2) r4(2) r3(2) k2
    by (auto simp: column_order_def data_columns_def)
  have nd: "''diff'' \<notin> ?Kp" "''diff'' \<notin> ?Ks" using x3(4) by blast+
  have d: "map_of row6 ''diff'' = Some (Str [])"
  proof -
    have "map_of row6 ''diff'' = map_of row5 ''diff''" using r6(3) nd by blast
    also have "\<dots> = map_of row4 ''diff''" using r5(3) nd by blast
    also have "\<dots> = map_of row3 ''diff''" using r4(3) x3(2) by blast
    also have "\<dots> = map_of row2 ''diff''" using r3(3) x3(2) by blast
    also have "\<dots> = Some (Str [])" using nd x3(2) by (simp add: m2)
    finally show ?thesis .
  qed
  have np: "segmentname_col pv \<notin> ?Kp" "segmentname_col pv \<notin> ?Ks"
    using x2(3) x4(2)[of _ p pv] by blast+
  have ns: "segmentname_col sv \<notin> ?Kp" "segmentname_col sv \<notin> ?Ks"
    using x2(4) x4(2)[of _ s sv] by blast+
  have kp: "map_of row6 (suffixed ''Segmentname'' pv) = Some (side_cell p io ''Segmentname'')"
  proof -
    have "map_of row6 (segmentname_col pv) = map_of row5 (segmentname_col pv)" using r6(3) np by blast
    also have "\<dots> = map_of row4 (segmentname_col pv)" using r5(3) np by blast
    also have "\<dots> = map_of row3 (segmentname_col pv)" using r4(3) x2(1) by blast
    finally show ?thesis using r3(4) by (simp add: segmentname_col_suffixed)
  qed
  have ks: "map_of row6 (suffixed ''Segmentname'' sv) = Some (side_cell s jo ''Segmentname'')"
  proof -
    have "map_of row6 (segmentname_col sv) = map_of row5 (segmentname_col sv)" using r6(3) ns by blast
    also have "\<dots> = map_of row4 (segmentname_col sv)" using r5(3) ns by blast
    finally show ?thesis using r4(4) by (simp add: segmentname_col_suffixed)
  qed
  have dp: "\<forall>c\<in>set (data_columns p). map_of row6 (suffixed c pv) = Some (side_cell p io c)"
  proof
    fix c assume c: "c \<in> set (data_columns p)"
    have "suffixed c pv \<notin> ?Ks" using x1(1) by blast
    with r6(3) have "map_of row6 (suffixed c pv) = map_of row5 (suffixed c pv)" by blast
    with r5(4) c show "map_of row6 (suffixed c pv) = Some (side_cell p io c)" by simp
  qed
  show ?thesis using run keys d kp ks dp r6(4) by auto
qed

lemma column_order_alt:
  "column_order p s pv sv =
     map (\<lambda>c. suffixed c pv) (''Segmentname'' # data_columns p) @ [''diff'']
     @ map (\<lambda>c. suffixed c sv) (''Segmentname'' # data_columns s)"
  by (simp add: column_order_def data_columns_def segmentname_col_suffixed)

lemma tagged_row_merged:
  assumes wfp: "wf_table pv p" and wfs: "wf_table sv s" and tags: "valid_tags pv sv"
    and ip: "case io of None \<Rightarrow> True | Some n \<Rightarrow> n < length (rows p)"
    and js: "case jo of None \<Rightarrow> True | Some n \<Rightarrow> n < length (rows s)"
  shows "\<exists>row. tagged_row (rename_segmentname pv p) (rename_segmentname sv s) pv sv io jo tag = Inr row \<and>
           fst ` set row = set (column_order p s pv sv) \<and>
           map (lookup row) (column_order p s pv sv) = merged_row p s (tag, io, jo)"
proof -
  from create_row_lookup[OF assms] obtain row where
    r: "create_row (Some (rename_segmentname pv p)) (Some (rename_segmentname sv s)) io jo pv sv = Inr row"
       "fst ` set row = set (column_order p s pv sv)"
       "map_of row ''diff'' = Some (Str [])"
       "\<forall>c\<in>set (''Segmentname'' # data_columns p). map_of row (suffixed c pv) = Some (side_cell p io c)"
       "\<forall>c\<in>set (''Segmentname'' # data_columns s). map_of row (suffixed c sv) = Some (side_cell s jo c)"
    by blast
  let ?row = "AList.update ''diff'' (Str tag) row"
  have run: "tagged_row (rename_segmentname pv p) (rename_segmentname sv s) pv sv io jo tag = Inr ?row"
    using r(1) by (simp add: tagged_row_def and_then_def)
  have "''diff'' \<in> fst ` set row" using r(3) by (metis domI dom_map_of_conv_image_fst)
  then have keys: "fst ` set ?row = set (column_order p s pv sv)"
    using r(2) by (auto simp: dom_update)
  have lp: "map (\<lambda>c. lookup ?row (suffixed c pv)) (''Segmentname'' # data_columns p) = side_values p io"
    unfolding side_values_def
    by (rule map_cong[OF refl]) (use r(4) suffixed_not_diff in \<open>auto simp: lookup_def update_conv'\<close>)
  have ls: "map (\<lambda>c. lookup ?row (suffixed c sv)) (''Segmentname'' # data_columns s) = side_values s jo"
    unfolding side_values_def
    by (rule map_cong[OF refl]) (use r(5) suffixed_not_diff in \<open>auto simp: lookup_def update_conv'\<close>)
  have ld: "lookup ?row ''diff'' = Str tag" by (simp add: lookup_def update_conv')
  have mm: "map (lookup ?row) (map (\<lambda>c. suffixed c fv) xs) = map (\<lambda>c. lookup ?row (suffixed c fv)) xs"
    for fv xs by (simp add: comp_def)
  have ma: "map (lookup ?row) (xs @ [''diff''] @ ys) = map (lookup ?row) xs @ [Str tag] @ map (lookup ?row) ys"
    for xs ys using ld by simp
  have "map (lookup ?row) (column_order p s pv sv) = merged_row p s (tag, io, jo)"
    unfolding column_order_alt ma mm lp ls by (simp add: merged_row_def)
  with run keys show ?thesis by blast
qed

lemma set_first_seen: "set (first_seen xs) = set xs"
  by (simp add: first_seen_def)

lemma row_map_map: "row_map cols (map g cols) c = (if c \<in> set cols then Some (g c) else None)"
  by (simp add: row_map_def map_of_zip_map)

lemma select_from_records:
  assumes "rs \<noteq> []" "\<forall>r\<in>set rs. fst ` set r = set order"
  shows "select_columns (map_cells f (from_records rs)) order =
           Inr \<lparr>columns = order, rows = map (\<lambda>r. map (\<lambda>c. f (lookup r c)) order) rs\<rparr>"
proof -
  let ?cols = "first_seen (concat (map (map fst) rs))"
  have cols: "set ?cols = set order"
    using assms by (auto simp: set_first_seen)
  have nf: "find (\<lambda>c. c \<notin> set ?cols) order = None"
    by (simp add: cols find_None_iff)
  have "map f (map (lookup r) ?cols) = map (\<lambda>c. f (lookup r c)) ?cols" for r by simp
  have rowv: "map (\<lambda>c. case row_map ?cols (map f (map (\<lambda>c. case map_of r c of None \<Rightarrow> NaN | Some v \<Rightarrow> v) ?cols)) c of
                          None \<Rightarrow> NaN | Some v \<Rightarrow> v) order
              = map (\<lambda>c. f (lookup r c)) order" for r
    by (rule map_cong[OF refl]) (simp add: row_map_map cols lookup_def comp_def)
  show ?thesis
    using nf rowv by (simp add: select_columns_def map_cells_def from_records_def Let_def comp_def)
qed

lemma select_from_records_plain:
  assumes "rs \<noteq> []" "\<forall>r\<in>set rs. fst ` set r = set order"
  shows "select_columns (from_records rs) order =
           Inr \<lparr>columns = order, rows = map (\<lambda>r. map (lookup r) order) rs\<rparr>"
proof -
  have "map_cells (\<lambda>v. v) (from_records rs) = from_records rs"
    by (simp add: map_cells_def)
  with select_from_records[OF assms, of "\<lambda>v. v"] show ?thesis by simp
qed

lemma collect_map:
  assumes "\<forall>n\<in>set ns. f n = Inr (g n)"
  shows "collect f ns = Inr (map g ns)"
  using assms by (induction ns) (simp_all add: and_then_def)

section \<open>Properties of the alignment loop\<close>

lemma py_index_Some:
  "py_index xs x = Some k \<Longrightarrow> k < length xs \<and> xs ! k = x \<and> (\<forall>m<k. xs ! m \<noteq> x)"
proof (induction xs arbitrary: k)
  case Nil
  then show ?case by simp
next
  case (Cons y ys)
  show ?case
  proof (cases "y = x")
    case True
    with Cons.prems show ?thesis by simp
  next
    case False
    with Cons.prems obtain k' where k': "py_index ys x = Some k'" "k = Suc k'" by auto
    from Cons.IH[OF k'(1)] False k'(2) show ?thesis
      by (auto simp: nth_Cons split: nat.splits)
  qed
qed

lemma py_index_None: "py_index xs x = None \<longleftrightarrow> x \<notin> set xs"
  by (induction xs) auto

lemma py_index_first:
  "k < length xs \<Longrightarrow> xs ! k = x \<Longrightarrow> \<forall>m<k. xs ! m \<noteq> x \<Longrightarrow> py_index xs x = Some k"
proof (induction xs arbitrary: k)
  case Nil
  then show ?case by simp
next
  case (Cons y ys)
  show ?case
  proof (cases k)
    case 0
    with Cons.prems show ?thesis by simp
  next
    case (Suc k')
    with Cons.prems have "y \<noteq> x" by auto
    moreover from Cons.prems Suc have "py_index ys x = Some k'"
      by (intro Cons.IH) auto
    ultimately show ?thesis using Suc by simp
  qed
qed

lemma emit_new_total:
  assumes "\<forall>n. j \<le> n \<and> n < j + k \<longrightarrow> mk None (Some n) ''NEW'' = Inr (g n)"
  shows "emit_new mk k (i, j, rs) = Inr (i, j + k, rs @ map g [j..<j + k])"
  using assms
proof (induction k arbitrary: j rs)
  case 0
  then show ?case by simp
next
  case (Suc k)
  from Suc.prems have here: "mk None (Some j) ''NEW'' = Inr (g j)" by simp
  from Suc.prems have "\<forall>n. j + 1 \<le> n \<and> n < (j + 1) + k \<longrightarrow> mk None (Some n) ''NEW'' = Inr (g n)"
    by simp
  from Suc.IH[OF this, of "rs @ [g j]"]
  have ih: "emit_new mk k (i, j + 1, rs @ [g j]) = Inr (i, j + 1 + k, (rs @ [g j]) @ map g [j + 1..<j + 1 + k])" .
  have up: "[j..<j + Suc k] = j # [j + 1..<j + 1 + k]" by (simp add: upt_rec)
  show ?case unfolding up using here ih by (simp add: and_then_def)
qed

text \<open>One pass of the loop on the decisions, branch by branch.\<close>

lemma loop_body_decide:
  "loop_body decide old new (i, j, ds) =
     Inr (if i \<ge> length old then (i, j + 1, ds @ [(''NEW'', None, Some j)])
          else if j \<ge> length new then (i + 1, j, ds @ [(''REMOVED'', Some i, None)])
          else if py_eq (old ! i) (new ! j) then (i + 1, j + 1, ds @ [([], Some i, Some j)])
          else (case py_index (drop j new) (old ! i) of
                  Some k \<Rightarrow> (i, j + k, ds @ map (\<lambda>n. (''NEW'', None, Some n)) [j..<j + k])
                | None \<Rightarrow> (i + 1, j, ds @ [(''REMOVED'', Some i, None)])))"
proof -
  have "emit_new decide k (i, j, ds) = Inr (i, j + k, ds @ map (\<lambda>n. (''NEW'', None, Some n)) [j..<j + k])" for k
    by (rule emit_new_total) (simp add: decide_def)
  then show ?thesis
    by (simp add: decide_def and_then_def split: option.splits)
qed

text \<open>
  The rows the loop builds are the images of the decisions it takes, whenever the row
  builder succeeds on every decision within the tables.
\<close>

lemma loop_body_rows:
  assumes new: "\<forall>n<length new. mk None (Some n) ''NEW'' = Inr (f (''NEW'', None, Some n))"
    and rem: "\<forall>n<length old. mk (Some n) None ''REMOVED'' = Inr (f (''REMOVED'', Some n, None))"
    and unc: "\<forall>n<length old. \<forall>m<length new. mk (Some n) (Some m) [] = Inr (f ([], Some n, Some m))"
    and cond: "i < length old \<or> j < length new"
    and body: "loop_body decide old new (i, j, ds) = Inr (i', j', ds')"
  shows "loop_body mk old new (i, j, map f ds) = Inr (i', j', map f ds')"
proof -
  have em: "emit_new mk k (i, j, map f ds) = Inr (i, j + k, map f ds @ map (\<lambda>n. f (''NEW'', None, Some n)) [j..<j + k])"
    if "j + k \<le> length new" for k
    by (rule emit_new_total) (use new that in auto)
  have idx: "j + k < length new" if "py_index (drop j new) (old ! i) = Some k" for k
    using py_index_Some[OF that] by auto
  show ?thesis
  proof (cases "i \<ge> length old")
    case True
    with cond have "j < length new" by simp
    with True body new show ?thesis unfolding loop_body_decide by (auto simp: and_then_def)
  next
    case i: False
    show ?thesis
    proof (cases "j \<ge> length new")
      case True
      with i body rem show ?thesis unfolding loop_body_decide by (auto simp: and_then_def)
    next
      case j: False
      show ?thesis
      proof (cases "py_eq (old ! i) (new ! j)")
        case True
        with i j body unc show ?thesis unfolding loop_body_decide by (auto simp: and_then_def)
      next
        case ne: False
        show ?thesis
        proof (cases "py_index (drop j new) (old ! i)")
          case None
          with i j ne body rem show ?thesis unfolding loop_body_decide by (auto simp: and_then_def)
        next
          case (Some k)
          from idx[OF Some] have "j + k \<le> length new" by simp
          from em[OF this] Some i j ne body show ?thesis
            unfolding loop_body_decide by (auto simp: comp_def)
        qed
      qed
    qed
  qed
qed

lemma align_loop_rows:
  assumes new: "\<forall>n<length new. mk None (Some n) ''NEW'' = Inr (f (''NEW'', None, Some n))"
    and rem: "\<forall>n<length old. mk (Some n) None ''REMOVED'' = Inr (f (''REMOVED'', Some n, None))"
    and unc: "\<forall>n<length old. \<forall>m<length new. mk (Some n) (Some m) [] = Inr (f ([], Some n, Some m))"
  shows "align_loop fuel mk old new (i, j, map f ds) =
           map_option (map_sum id (\<lambda>(i', j', ds'). (i', j', map f ds')))
             (align_loop fuel decide old new (i, j, ds))"
proof (induction fuel arbitrary: i j ds)
  case 0
  show ?case by simp
next
  case (Suc fuel)
  show ?case
  proof (cases "i < length old \<or> j < length new")
    case False
    then show ?thesis by simp
  next
    case True
    obtain st' where "loop_body decide old new (i, j, ds) = Inr st'"
      unfolding loop_body_decide by blast
    then obtain i' j' ds' where b: "loop_body decide old new (i, j, ds) = Inr (i', j', ds')"
      by (cases st') auto
    from loop_body_rows[OF new rem unc True b]
    have "loop_body mk old new (i, j, map f ds) = Inr (i', j', map f ds')" .
    with b True Suc.IH[of i' j' ds'] show ?thesis
      by (simp del: loop_body.simps)
  qed
qed

lemma previous_rows_append: "previous_rows (xs @ ys) = previous_rows xs @ previous_rows ys"
  by (simp add: previous_rows_def)

lemma subsequent_rows_append: "subsequent_rows (xs @ ys) = subsequent_rows xs @ subsequent_rows ys"
  by (simp add: subsequent_rows_def)

lemma rows_of_new:
  "previous_rows (map (\<lambda>n. (''NEW'', None, Some n)) ns) = []"
  "subsequent_rows (map (\<lambda>n. (''NEW'', None, Some n)) ns) = ns"
  by (induction ns) (simp_all add: previous_rows_def subsequent_rows_def)

lemma rows_of_single:
  "previous_rows [(tag, io, jo)] = (case io of None \<Rightarrow> [] | Some n \<Rightarrow> [n])"
  "subsequent_rows [(tag, io, jo)] = (case jo of None \<Rightarrow> [] | Some n \<Rightarrow> [n])"
  by (simp_all add: previous_rows_def subsequent_rows_def)

lemma upt_extend: "[0..<j] @ [j..<j + k] = [0..<j + k]"
  by (metis le_add1 upt_add_eq_append zero_le add_0)

text \<open>
  When the keys at the two cursors do not compare equal, the forward search can return
  offset 0 only for the missing value, which is found by identity.
\<close>

lemma py_eq_iff: "py_eq a b \<longleftrightarrow> a = b \<and> a \<noteq> NaN"
  by (cases a; cases b) auto

lemma search_offset_positive:
  assumes "j < length new" "\<not> py_eq x (new ! j)" "x \<noteq> NaN"
    "py_index (drop j new) x = Some k"
  shows "0 < k"
proof (rule ccontr)
  assume "\<not> 0 < k"
  then have "k = 0" by simp
  with py_index_Some[OF assms(4)] assms(1) have "new ! j = x" by simp
  with assms(2,3) show False by (simp add: py_eq_iff)
qed

lemma loop_body_inv:
  assumes inv: "loop_inv old new (i, j, ds)" and cond: "i < length old \<or> j < length new"
    and body: "loop_body decide old new (i, j, ds) = Inr (i', j', ds')"
  shows "loop_inv old new (i', j', ds')"
proof (cases "i \<ge> length old")
  case True
  with cond have "j < length new" by simp
  with True body inv show ?thesis unfolding loop_body_decide
    by (auto simp: previous_rows_append subsequent_rows_append rows_of_single)
next
  case i: False
  show ?thesis
  proof (cases "j \<ge> length new")
    case True
    with i body inv show ?thesis unfolding loop_body_decide
      by (auto simp: previous_rows_append subsequent_rows_append rows_of_single)
  next
    case j: False
    show ?thesis
    proof (cases "py_eq (old ! i) (new ! j)")
      case True
      with i j body inv show ?thesis unfolding loop_body_decide
        by (auto simp: previous_rows_append subsequent_rows_append rows_of_single)
    next
      case ne: False
      show ?thesis
      proof (cases "py_index (drop j new) (old ! i)")
        case None
        with i j ne body inv show ?thesis unfolding loop_body_decide
          by (auto simp: previous_rows_append subsequent_rows_append rows_of_single)
      next
        case (Some k)
        from py_index_Some[OF Some] have k: "j + k < length new" by auto
        have v: "list_all (valid_decision old new) (map (\<lambda>n. (''NEW'', None, Some n)) [j..<j + k])"
          using k by (auto simp: list_all_iff)
        from Some i j ne body have st: "i' = i" "j' = j + k"
          "ds' = ds @ map (\<lambda>n. (''NEW'', None, Some n)) [j..<j + k]"
          unfolding loop_body_decide by auto
        show ?thesis unfolding st using inv k v
          by (simp add: previous_rows_append subsequent_rows_append rows_of_new upt_extend)
      qed
    qed
  qed
qed

lemma align_loop_inv:
  assumes "align_loop fuel decide old new (i, j, ds) = Some r" "loop_inv old new (i, j, ds)"
  shows "\<exists>ds'. r = Inr (length old, length new, ds') \<and> loop_inv old new (length old, length new, ds')"
  using assms
proof (induction fuel arbitrary: i j ds)
  case 0
  then show ?case by (auto split: if_splits)
next
  case (Suc fuel)
  show ?case
  proof (cases "i < length old \<or> j < length new")
    case False
    with Suc.prems show ?thesis by auto
  next
    case True
    obtain st' where "loop_body decide old new (i, j, ds) = Inr st'"
      unfolding loop_body_decide by blast
    then obtain i' j' ds' where b: "loop_body decide old new (i, j, ds) = Inr (i', j', ds')"
      by (cases st') auto
    from Suc.prems(1) True b have "align_loop fuel decide old new (i', j', ds') = Some r"
      by (simp del: loop_body.simps)
    from Suc.IH[OF this loop_body_inv[OF Suc.prems(2) True b]] show ?thesis .
  qed
qed

lemma loop_body_progress:
  assumes cond: "i < length old \<or> j < length new" and keys: "NaN \<notin> set old"
    and body: "loop_body decide old new (i, j, ds) = Inr (i', j', ds')"
  shows "(length old - i') + (length new - j') < (length old - i) + (length new - j)
         \<and> ((i' = i + 1 \<and> j' = j) \<or> (i' = i \<and> j' > j) \<or> (i' = i + 1 \<and> j' = j + 1))"
proof (cases "i \<ge> length old")
  case True
  with cond have "j < length new" by simp
  with True body show ?thesis unfolding loop_body_decide by auto
next
  case i: False
  show ?thesis
  proof (cases "j \<ge> length new")
    case True
    with i body show ?thesis unfolding loop_body_decide by auto
  next
    case j: False
    show ?thesis
    proof (cases "py_eq (old ! i) (new ! j)")
      case True
      with i j body show ?thesis unfolding loop_body_decide by auto
    next
      case ne: False
      show ?thesis
      proof (cases "py_index (drop j new) (old ! i)")
        case None
        with i j ne body show ?thesis unfolding loop_body_decide by auto
      next
        case (Some k)
        from py_index_Some[OF Some] have k: "j + k < length new" by auto
        from i keys have "old ! i \<noteq> NaN" by (metis not_le nth_mem)
        from search_offset_positive[OF _ ne this Some] j have "0 < k" by simp
        with Some i j ne body k show ?thesis unfolding loop_body_decide by auto
      qed
    qed
  qed
qed

lemma align_loop_terminates:
  assumes "NaN \<notin> set old" "(length old - i) + (length new - j) \<le> fuel"
  shows "\<exists>r. align_loop fuel decide old new (i, j, ds) = Some (Inr r)"
  using assms(2)
proof (induction fuel arbitrary: i j ds)
  case 0
  then show ?case by simp
next
  case (Suc fuel)
  show ?case
  proof (cases "i < length old \<or> j < length new")
    case False
    then show ?thesis by simp
  next
    case True
    obtain st' where "loop_body decide old new (i, j, ds) = Inr st'"
      unfolding loop_body_decide by blast
    then obtain i' j' ds' where b: "loop_body decide old new (i, j, ds) = Inr (i', j', ds')"
      by (cases st') auto
    from loop_body_progress[OF True assms(1) b] Suc.prems
    have "(length old - i') + (length new - j') \<le> fuel" by linarith
    from Suc.IH[OF this, of ds'] True b show ?thesis by (simp del: loop_body.simps)
  qed
qed

lemma decisions_bounded:
  "list_all (valid_decision old new) ds \<Longrightarrow>
     length ds \<le> length (previous_rows ds) + length (subsequent_rows ds)"
proof (induction ds)
  case Nil
  then show ?case by simp
next
  case (Cons d ds)
  obtain tag io jo where d: "d = (tag, io, jo)" by (cases d)
  from Cons show ?case
    by (cases io; cases jo) (auto simp: d previous_rows_def subsequent_rows_def)
qed

text \<open>
  On keys that are all present in the previous table the loop finishes within
  \<open>length old + length new\<close> passes, and its decisions cover every row of both
  tables exactly once, in order.
\<close>

lemma decisions_total:
  assumes "NaN \<notin> set old" "length old + length new \<le> fuel"
  shows "\<exists>ds. align_loop fuel decide old new (0, 0, []) = Some (Inr (length old, length new, ds)) \<and>
              previous_rows ds = [0..<length old] \<and> subsequent_rows ds = [0..<length new] \<and>
              list_all (valid_decision old new) ds \<and> length ds \<le> length old + length new"
proof -
  from align_loop_terminates[OF assms(1), of 0 new 0 fuel "[]"] assms(2)
  obtain r where r: "align_loop fuel decide old new (0, 0, []) = Some (Inr r)" by auto
  have "loop_inv old new (0, 0, [])" by (simp add: previous_rows_def subsequent_rows_def)
  from align_loop_inv[OF r this] obtain ds where
    ds: "r = (length old, length new, ds)" "loop_inv old new (length old, length new, ds)" by auto
  from ds(2) decisions_bounded[of old new ds] have "length ds \<le> length old + length new" by simp
  with r ds show ?thesis by simp
qed

text \<open>
  When both cursors stand on the missing value, a pass changes nothing: the comparison
  fails, the search finds the value at offset 0, and no row is emitted.
\<close>

lemma loop_body_stuck:
  assumes "i < length old" "j < length new" "old ! i = NaN" "new ! j = NaN"
  shows "loop_body mk old new (i, j, rs) = Inr (i, j, rs)"
proof -
  from assms(2,4) have "drop j new = NaN # drop (Suc j) new"
    by (metis Cons_nth_drop_Suc)
  with assms show ?thesis by simp
qed

lemma align_loop_diverges:
  assumes "i < length old" "j < length new" "old ! i = NaN" "new ! j = NaN"
  shows "align_loop fuel mk old new (i, j, rs) = None"
proof (induction fuel)
  case 0
  from assms show ?case by simp
next
  case (Suc fuel)
  with assms show ?case by (simp add: loop_body_stuck[OF assms] del: loop_body.simps)
qed

section \<open>The merged table\<close>

lemma keys_column_values:
  assumes "wf_table fv df"
  shows "column_values (rename_segmentname fv df) (segmentname_col fv) = Inr (keys_of df)"
proof -
  let ?df = "rename_segmentname fv df"
  have "map (\<lambda>r. case row_map (columns ?df) r (segmentname_col fv) of None \<Rightarrow> NaN | Some v \<Rightarrow> v) (rows df)
        = map (\<lambda>idx. cell_of df idx ''Segmentname'') [0..<length (rows df)]"
  proof (rule nth_equalityI)
    show "length (map (\<lambda>r. case row_map (columns ?df) r (segmentname_col fv) of None \<Rightarrow> NaN | Some v \<Rightarrow> v) (rows df))
          = length (map (\<lambda>idx. cell_of df idx ''Segmentname'') [0..<length (rows df)])" by simp
  next
    fix n assume "n < length (map (\<lambda>r. case row_map (columns ?df) r (segmentname_col fv) of None \<Rightarrow> NaN | Some v \<Rightarrow> v) (rows df))"
    then have n: "n < length (rows df)" by simp
    from rename_cell_of(1)[OF assms, of n]
    have "(case row_map (columns ?df) (rows df ! n) (segmentname_col fv) of None \<Rightarrow> NaN | Some v \<Rightarrow> v)
          = cell_of df n ''Segmentname''"
      by (simp add: cell_of_def rename_columns(4)[OF assms])
    with n show "map (\<lambda>r. case row_map (columns ?df) r (segmentname_col fv) of None \<Rightarrow> NaN | Some v \<Rightarrow> v) (rows df) ! n
          = map (\<lambda>idx. cell_of df idx ''Segmentname'') [0..<length (rows df)] ! n" by simp
  qed
  then show ?thesis
    using rename_columns(1)[OF assms]
    by (simp add: column_values_def keys_of_def rename_columns(4)[OF assms])
qed

lemma rename_empty:
  assumes "wf_table fv df"
  shows "df_empty (rename_segmentname fv df) \<longleftrightarrow> rows df = []"
  using rename_columns(1)[OF assms]
  by (auto simp: df_empty_def rename_columns(4)[OF assms])

lemma length_keys_of: "length (keys_of df) = length (rows df)"
  by (simp add: keys_of_def)

lemma distinct_column_order:
  assumes wfp: "wf_table pv p" and wfs: "wf_table sv s" and tags: "valid_tags pv sv"
  shows "distinct (column_order p s pv sv)"
proof -
  note lens = valid_tags_length[OF tags]
  have d: "distinct (''Segmentname'' # data_columns df)" if "wf_table fv df" for fv df
    using that by (auto simp: wf_table_def data_columns_def)
  have inj: "inj_on (\<lambda>c. suffixed c fv) A" for fv A
    by (simp add: inj_on_def suffixed_inj)
  have dm: "distinct (map (\<lambda>c. suffixed c fv) (''Segmentname'' # data_columns df))"
    if "wf_table fv df" for fv df
    using d[OF that] inj by (simp only: distinct_map)
  have x: "suffixed c pv \<noteq> suffixed c' sv" "suffixed c' sv \<noteq> suffixed c pv" for c c'
    using suffixed_cross[of pv sv c c'] lens by auto
  have nd: "''diff'' \<noteq> suffixed c fv" for c fv
    by (metis suffixed_not_diff)
  have disj: "set (map (\<lambda>c. suffixed c pv) (''Segmentname'' # data_columns p))
              \<inter> set (map (\<lambda>c. suffixed c sv) (''Segmentname'' # data_columns s)) = {}"
    using x by (auto simp del: list.map simp: set_map)
  have nd1: "''diff'' \<notin> set (map (\<lambda>c. suffixed c fv) (''Segmentname'' # data_columns df))" for fv df
    using nd by (auto simp del: list.map simp: set_map)
  show ?thesis
    unfolding column_order_alt
    using dm[OF wfp] dm[OF wfs] disj nd1
    by (simp only: distinct_append distinct.simps set_append set_simps) blast
qed

lemma first_seen_distinct: "distinct xs \<Longrightarrow> first_seen xs = xs"
  by (simp add: first_seen_def distinct_remdups_id)

lemma align_columns_both_empty:
  assumes wfp: "wf_table pv p" and wfs: "wf_table sv s" and tags: "valid_tags pv sv"
    and "rows p = []" "rows s = []"
  shows "align_columns fuel p s pv sv = Some (Inr \<lparr>columns = column_order p s pv sv, rows = []\<rparr>)"
  using assms first_seen_distinct[OF distinct_column_order[OF wfp wfs tags]]
  by (simp add: align_columns_def rename_empty Let_def)

lemma align_columns_removed:
  assumes wfp: "wf_table pv p" and wfs: "wf_table sv s" and tags: "valid_tags pv sv"
    and p: "rows p \<noteq> []" and s: "rows s = []"
  shows "align_columns fuel p s pv sv =
           Some (Inr \<lparr>columns = column_order p s pv sv,
                      rows = map (\<lambda>i. merged_row p s (''REMOVED'', Some i, None)) [0..<length (rows p)]\<rparr>)"
proof -
  let ?P = "rename_segmentname pv p" and ?S = "rename_segmentname sv s"
  let ?mk = "tagged_row ?P ?S pv sv"
  let ?f = "\<lambda>i. projr (?mk (Some i) None ''REMOVED'')"
  have each: "?mk (Some i) None ''REMOVED'' = Inr (?f i) \<and>
              fst ` set (?f i) = set (column_order p s pv sv) \<and>
              map (lookup (?f i)) (column_order p s pv sv) = merged_row p s (''REMOVED'', Some i, None)"
    if "i < length (rows p)" for i
  proof -
    from tagged_row_merged[OF wfp wfs tags, of "Some i" None "''REMOVED''"] that
    obtain row where r: "?mk (Some i) None ''REMOVED'' = Inr row"
      "fst ` set row = set (column_order p s pv sv)"
      "map (lookup row) (column_order p s pv sv) = merged_row p s (''REMOVED'', Some i, None)"
      by auto
    from r(1) have "?f i = row" by simp
    with r show ?thesis by simp
  qed
  have c: "collect (\<lambda>i. ?mk (Some i) None ''REMOVED'') [0..<length (rows ?P)] = Inr (map ?f [0..<length (rows p)])"
    unfolding rename_columns(4)[OF wfp] by (rule collect_map) (use each in auto)
  have ne: "map ?f [0..<length (rows p)] \<noteq> []" using p by simp
  have ks: "\<forall>r\<in>set (map ?f [0..<length (rows p)]). fst ` set r = set (column_order p s pv sv)"
    using each by auto
  have "map (\<lambda>r. map (lookup r) (column_order p s pv sv)) (map ?f [0..<length (rows p)])
        = map (\<lambda>i. merged_row p s (''REMOVED'', Some i, None)) [0..<length (rows p)]"
    using each by simp
  with select_from_records_plain[OF ne ks] c p s show ?thesis
    by (simp add: align_columns_def rename_empty[OF wfp] rename_empty[OF wfs] Let_def and_then_def)
qed

lemma align_columns_new:
  assumes wfp: "wf_table pv p" and wfs: "wf_table sv s" and tags: "valid_tags pv sv"
    and p: "rows p = []" and s: "rows s \<noteq> []"
  shows "align_columns fuel p s pv sv =
           Some (Inr \<lparr>columns = column_order p s pv sv,
                      rows = map (\<lambda>j. merged_row p s (''NEW'', None, Some j)) [0..<length (rows s)]\<rparr>)"
proof -
  let ?P = "rename_segmentname pv p" and ?S = "rename_segmentname sv s"
  let ?mk = "tagged_row ?P ?S pv sv"
  let ?f = "\<lambda>j. projr (?mk None (Some j) ''NEW'')"
  have each: "?mk None (Some j) ''NEW'' = Inr (?f j) \<and>
              fst ` set (?f j) = set (column_order p s pv sv) \<and>
              map (lookup (?f j)) (column_order p s pv sv) = merged_row p s (''NEW'', None, Some j)"
    if "j < length (rows s)" for j
  proof -
    from tagged_row_merged[OF wfp wfs tags, of None "Some j" "''NEW''"] that
    obtain row where r: "?mk None (Some j) ''NEW'' = Inr row"
      "fst ` set row = set (column_order p s pv sv)"
      "map (lookup row) (column_order p s pv sv) = merged_row p s (''NEW'', None, Some j)"
      by auto
    from r(1) have "?f j = row" by simp
    with r show ?thesis by simp
  qed
  have c: "collect (\<lambda>j. ?mk None (Some j) ''NEW'') [0..<length (rows ?S)] = Inr (map ?f [0..<length (rows s)])"
    unfolding rename_columns(4)[OF wfs] by (rule collect_map) (use each in auto)
  have ne: "map ?f [0..<length (rows s)] \<noteq> []" using s by simp
  have ks: "\<forall>r\<in>set (map ?f [0..<length (rows s)]). fst ` set r = set (column_order p s pv sv)"
    using each by auto
  have "map (\<lambda>r. map (lookup r) (column_order p s pv sv)) (map ?f [0..<length (rows s)])
        = map (\<lambda>j. merged_row p s (''NEW'', None, Some j)) [0..<length (rows s)]"
    using each by simp
  with select_from_records_plain[OF ne ks] c p s show ?thesis
    by (simp add: align_columns_def rename_empty[OF wfp] rename_empty[OF wfs] Let_def and_then_def)
qed

lemma valid_decision_range:
  assumes "valid_decision old new (tag, io, jo)"
  shows "(case io of None \<Rightarrow> True | Some n \<Rightarrow> n < length old)"
    and "(case jo of None \<Rightarrow> True | Some n \<Rightarrow> n < length new)"
  using assms by (cases io; cases jo; simp)+

text \<open>
  The general case of \<^const>\<open>align_columns\<close>, both tables with rows: the merged table
  lists, for the decisions of the loop on the two key columns, the merged row of each
  decision after the final \<^verbatim>\<open>astype(str).replace("nan", "")\<close>.
\<close>

lemma align_columns_general:
  assumes wfp: "wf_table pv p" and wfs: "wf_table sv s" and tags: "valid_tags pv sv"
    and p: "rows p \<noteq> []" and s: "rows s \<noteq> []"
  shows "align_columns fuel p s pv sv =
           (case align_loop fuel decide (keys_of p) (keys_of s) (0, 0, []) of
              None \<Rightarrow> None
            | Some r \<Rightarrow>
                (case r of
                   Inl e \<Rightarrow> Some (Inl e)
                 | Inr (i, j, ds) \<Rightarrow>
                     Some (Inr \<lparr>columns = column_order p s pv sv,
                                rows = map (\<lambda>d. map astype_str_replace_nan (merged_row p s d)) ds\<rparr>)))"
proof -
  let ?P = "rename_segmentname pv p" and ?S = "rename_segmentname sv s"
  let ?mk = "tagged_row ?P ?S pv sv"
  define f where "f = (\<lambda>d. case d of (tag, io, jo) \<Rightarrow> projr (?mk io jo tag))"
  let ?old = "keys_of p" and ?new = "keys_of s"
  let ?order = "column_order p s pv sv"
  have each: "?mk io jo tag = Inr (f (tag, io, jo)) \<and> fst ` set (f (tag, io, jo)) = set ?order \<and>
              map (lookup (f (tag, io, jo))) ?order = merged_row p s (tag, io, jo)"
    if io: "case io of None \<Rightarrow> True | Some n \<Rightarrow> n < length ?old"
      and jo: "case jo of None \<Rightarrow> True | Some n \<Rightarrow> n < length ?new" for tag io jo
  proof -
    from io have io': "case io of None \<Rightarrow> True | Some n \<Rightarrow> n < length (rows p)"
      by (cases io) (simp_all add: length_keys_of)
    from jo have jo': "case jo of None \<Rightarrow> True | Some n \<Rightarrow> n < length (rows s)"
      by (cases jo) (simp_all add: length_keys_of)
    from tagged_row_merged[OF wfp wfs tags io' jo', of tag]
    obtain row where r: "?mk io jo tag = Inr row" "fst ` set row = set ?order"
      "map (lookup row) ?order = merged_row p s (tag, io, jo)" by auto
    from r(1) have "f (tag, io, jo) = row" by (simp add: f_def)
    with r show ?thesis by simp
  qed
  have new: "\<forall>n<length ?new. ?mk None (Some n) ''NEW'' = Inr (f (''NEW'', None, Some n))"
    using each[of None "Some _" "''NEW''"] by simp
  have rem: "\<forall>n<length ?old. ?mk (Some n) None ''REMOVED'' = Inr (f (''REMOVED'', Some n, None))"
    using each[of "Some _" None "''REMOVED''"] by simp
  have unc: "\<forall>n<length ?old. \<forall>m<length ?new. ?mk (Some n) (Some m) [] = Inr (f ([], Some n, Some m))"
    using each[of "Some _" "Some _" "[]"] by simp
  from align_loop_rows[OF new rem unc, of fuel 0 0 "[]"]
  have sim: "align_loop fuel ?mk ?old ?new (0, 0, []) =
               map_option (map_sum id (\<lambda>(i', j', ds'). (i', j', map f ds')))
                 (align_loop fuel decide ?old ?new (0, 0, []))" by simp
  have pre: "align_columns fuel p s pv sv =
               (case align_loop fuel ?mk ?old ?new (0, 0, []) of
                  None \<Rightarrow> None
                | Some (Inl e) \<Rightarrow> Some (Inl e)
                | Some (Inr (i, j, result_rows)) \<Rightarrow>
                    Some (select_columns (map_cells astype_str_replace_nan (from_records result_rows)) ?order))"
    using p s
    by (simp add: align_columns_def rename_empty[OF wfp] rename_empty[OF wfs] Let_def
        keys_column_values[OF wfp] keys_column_values[OF wfs])
  show ?thesis
  proof (cases "align_loop fuel decide ?old ?new (0, 0, [])")
    case None
    with sim have "align_loop fuel ?mk ?old ?new (0, 0, []) = None" by simp
    with pre None show ?thesis by simp
  next
    case (Some r)
    have "loop_inv ?old ?new (0, 0, [])" by (simp add: previous_rows_def subsequent_rows_def)
    from align_loop_inv[OF Some this] obtain ds where
      r: "r = Inr (length ?old, length ?new, ds)" and inv: "loop_inv ?old ?new (length ?old, length ?new, ds)"
      by auto
    from inv p have "previous_rows ds \<noteq> []" by (simp add: length_keys_of)
    then have ne: "map f ds \<noteq> []" by (auto simp: previous_rows_def)
    have good: "fst ` set (f d) = set ?order \<and> map (lookup (f d)) ?order = merged_row p s d"
      if "d \<in> set ds" for d
    proof -
      obtain tag io jo where d: "d = (tag, io, jo)" by (cases d)
      from inv that have "valid_decision ?old ?new (tag, io, jo)"
        by (simp add: list_all_iff d)
      from each[OF valid_decision_range[OF this], of tag] show ?thesis
        by (simp add: d)
    qed
    then have ks: "\<forall>r\<in>set (map f ds). fst ` set r = set ?order" by simp
    have rowseq: "map (\<lambda>r. map (\<lambda>c. astype_str_replace_nan (lookup r c)) ?order) (map f ds)
          = map (\<lambda>d. map astype_str_replace_nan (merged_row p s d)) ds"
    proof -
      have one: "map (\<lambda>c. astype_str_replace_nan (lookup (f d) c)) ?order
            = map astype_str_replace_nan (merged_row p s d)" if "d \<in> set ds" for d
      proof -
        have "map (\<lambda>c. astype_str_replace_nan (lookup (f d) c)) ?order
              = map astype_str_replace_nan (map (lookup (f d)) ?order)"
          by (simp only: map_map comp_def)
        with good[OF that] show ?thesis by (simp only:)
      qed
      have "map (\<lambda>r. map (\<lambda>c. astype_str_replace_nan (lookup r c)) ?order) (map f ds)
            = map (\<lambda>d. map (\<lambda>c. astype_str_replace_nan (lookup (f d) c)) ?order) ds"
        by (simp only: map_map comp_def)
      also have "\<dots> = map (\<lambda>d. map astype_str_replace_nan (merged_row p s d)) ds"
        by (rule map_cong[OF refl]) (rule one)
      finally show ?thesis .
    qed
    from sim Some r
    have lp: "align_loop fuel ?mk ?old ?new (0, 0, []) = Some (Inr (length ?old, length ?new, map f ds))"
      by simp
    have "align_columns fuel p s pv sv =
            Some (select_columns (map_cells astype_str_replace_nan (from_records (map f ds))) ?order)"
      unfolding pre lp by simp
    also have "\<dots> = Some (Inr \<lparr>columns = ?order,
                   rows = map (\<lambda>d. map astype_str_replace_nan (merged_row p s d)) ds\<rparr>)"
      unfolding select_from_records[OF ne ks, of astype_str_replace_nan] rowseq ..
    finally show ?thesis unfolding Some r by simp
  qed
qed

section \<open>Rows of the merged table\<close>

lemma wf_table_empty: "wf_table fv df \<Longrightarrow> df_empty df \<longleftrightarrow> rows df = []"
  by (auto simp: wf_table_def df_empty_def)

text \<open>
  Every row of a merged table is the merged row of a decision that is valid for the two
  key columns; the general case passes every cell through the final
  \<^verbatim>\<open>astype(str).replace("nan", "")\<close>, the cases with an empty table do not.
\<close>

lemma merged_table_structure:
  assumes wfp: "wf_table pv p" and wfs: "wf_table sv s" and tags: "valid_tags pv sv"
    and res: "align_columns fuel p s pv sv = Some (Inr m)"
  shows "columns m = column_order p s pv sv \<and>
         (\<exists>ds. list_all (valid_decision (keys_of p) (keys_of s)) ds \<and>
               previous_rows ds = [0..<length (rows p)] \<and>
               subsequent_rows ds = [0..<length (rows s)] \<and>
               (if rows p \<noteq> [] \<and> rows s \<noteq> []
                then rows m = map (\<lambda>d. map astype_str_replace_nan (merged_row p s d)) ds
                else rows m = map (merged_row p s) ds))"
proof (cases "rows p = []"; cases "rows s = []")
  assume e: "rows p = []" "rows s = []"
  from res align_columns_both_empty[OF wfp wfs tags e, of fuel]
  have m: "m = \<lparr>columns = column_order p s pv sv, rows = []\<rparr>" by simp
  have "list_all (valid_decision (keys_of p) (keys_of s)) [] \<and> previous_rows [] = [0..<length (rows p)] \<and>
        subsequent_rows [] = [0..<length (rows s)] \<and> rows m = map (merged_row p s) []"
    using e by (simp add: m previous_rows_def subsequent_rows_def)
  with e m show ?thesis by auto
next
  assume e: "rows p = []" "rows s \<noteq> []"
  let ?ds = "map (\<lambda>j. (''NEW'', None, Some j)) [0..<length (rows s)]"
  from res align_columns_new[OF wfp wfs tags e, of fuel]
  have m: "m = \<lparr>columns = column_order p s pv sv,
                 rows = map (\<lambda>j. merged_row p s (''NEW'', None, Some j)) [0..<length (rows s)]\<rparr>" by simp
  have "list_all (valid_decision (keys_of p) (keys_of s)) ?ds"
    by (simp add: list_all_iff length_keys_of)
  moreover have "previous_rows ?ds = [0..<length (rows p)]" "subsequent_rows ?ds = [0..<length (rows s)]"
    using e by (simp_all add: rows_of_new)
  moreover have "rows m = map (merged_row p s) ?ds" by (simp add: m comp_def)
  ultimately show ?thesis using e m by auto
next
  assume e: "rows p \<noteq> []" "rows s = []"
  let ?ds = "map (\<lambda>i. (''REMOVED'', Some i, None)) [0..<length (rows p)]"
  from res align_columns_removed[OF wfp wfs tags e, of fuel]
  have m: "m = \<lparr>columns = column_order p s pv sv,
                 rows = map (\<lambda>i. merged_row p s (''REMOVED'', Some i, None)) [0..<length (rows p)]\<rparr>" by simp
  have "list_all (valid_decision (keys_of p) (keys_of s)) ?ds"
    by (simp add: list_all_iff length_keys_of)
  moreover have "previous_rows ?ds = [0..<length (rows p)]" "subsequent_rows ?ds = [0..<length (rows s)]"
    using e by (simp_all add: previous_rows_def subsequent_rows_def comp_def concat_map_singleton)
  moreover have "rows m = map (merged_row p s) ?ds" by (simp add: m comp_def)
  ultimately show ?thesis using e m by auto
next
  assume e: "rows p \<noteq> []" "rows s \<noteq> []"
  note g = align_columns_general[OF wfp wfs tags e, of fuel]
  from res g obtain r where r: "align_loop fuel decide (keys_of p) (keys_of s) (0, 0, []) = Some r"
    by (cases "align_loop fuel decide (keys_of p) (keys_of s) (0, 0, [])") auto
  have "loop_inv (keys_of p) (keys_of s) (0, 0, [])" by (simp add: previous_rows_def subsequent_rows_def)
  from align_loop_inv[OF r this] obtain ds where
    ds: "r = Inr (length (keys_of p), length (keys_of s), ds)"
    and inv: "loop_inv (keys_of p) (keys_of s) (length (keys_of p), length (keys_of s), ds)" by auto
  from res g r ds
  have m: "m = \<lparr>columns = column_order p s pv sv,
                 rows = map (\<lambda>d. map astype_str_replace_nan (merged_row p s d)) ds\<rparr>" by simp
  from inv have "list_all (valid_decision (keys_of p) (keys_of s)) ds"
    "previous_rows ds = [0..<length (rows p)]" "subsequent_rows ds = [0..<length (rows s)]"
    by (simp_all add: length_keys_of)
  with e m show ?thesis by auto
qed

lemma map_of_zip_map_inj:
  assumes "inj h" "c \<in> set A"
  shows "map_of (zip (map h A) (map k A)) (h c) = Some (k c)"
  using assms(2)
proof (induction A)
  case Nil
  then show ?case by simp
next
  case (Cons a A)
  from assms(1) have "h c = h a \<longleftrightarrow> c = a" by (auto dest: injD)
  with Cons show ?case by auto
qed

lemma map_of_zip_map_None:
  "x \<notin> h ` set A \<Longrightarrow> map_of (zip (map h A) (map k A)) x = None"
  by (induction A) auto

lemma inj_suffixed: "inj (\<lambda>c. suffixed c fv)"
  by (simp add: inj_def suffixed_inj)

lemma zip_merged_row:
  "zip (column_order p s pv sv) (map norm (merged_row p s (tag, io, jo)))
     = zip (map (\<lambda>c. suffixed c pv) (''Segmentname'' # data_columns p))
           (map (\<lambda>c. norm (side_cell p io c)) (''Segmentname'' # data_columns p))
       @ (''diff'', norm (Str tag))
       # zip (map (\<lambda>c. suffixed c sv) (''Segmentname'' # data_columns s))
             (map (\<lambda>c. norm (side_cell s jo c)) (''Segmentname'' # data_columns s))"
proof -
  have "zip (map hp A @ [''diff''] @ map hs B)
            (map norm (map f A @ [Str tag] @ map g B))
        = zip (map hp A) (map (\<lambda>c. norm (f c)) A) @ (''diff'', norm (Str tag)) # zip (map hs B) (map (\<lambda>c. norm (g c)) B)"
    for A B :: "string list" and hp hs :: "string \<Rightarrow> string" and f g
    by (simp add: comp_def)
  then show ?thesis
    unfolding column_order_alt merged_row_def side_values_def prod.case .
qed

lemma map_of_append_Cons:
  "map_of (xs @ (k, v) # ys) x =
     (case map_of xs x of Some w \<Rightarrow> Some w | None \<Rightarrow> if x = k then Some v else map_of ys x)"
  by (simp add: map_add_def split: option.splits)

lemma row_map_merged_row:
  "row_map (column_order p s pv sv) (map norm (merged_row p s (tag, io, jo))) x =
     (case map_of (zip (map (\<lambda>c. suffixed c pv) (''Segmentname'' # data_columns p))
                       (map (\<lambda>c. norm (side_cell p io c)) (''Segmentname'' # data_columns p))) x of
        Some w \<Rightarrow> Some w
      | None \<Rightarrow> if x = ''diff'' then Some (norm (Str tag))
                else map_of (zip (map (\<lambda>c. suffixed c sv) (''Segmentname'' # data_columns s))
                                 (map (\<lambda>c. norm (side_cell s jo c)) (''Segmentname'' # data_columns s))) x)"
  unfolding row_map_def zip_merged_row by (rule map_of_append_Cons)


lemma diff_not_suffixed: "''diff'' \<notin> (\<lambda>c. suffixed c fv) ` S"
proof
  assume "''diff'' \<in> (\<lambda>c. suffixed c fv) ` S"
  then obtain c where "''diff'' = suffixed c fv" by blast
  then have "suffixed c fv = ''diff''" by (rule sym)
  with suffixed_not_diff show False by blast
qed

lemma cross_not_suffixed:
  assumes "valid_tags pv sv"
  shows "suffixed c sv \<notin> (\<lambda>c. suffixed c pv) ` S"
proof
  assume "suffixed c sv \<in> (\<lambda>c. suffixed c pv) ` S"
  then obtain c' where "suffixed c sv = suffixed c' pv" by blast
  then have "suffixed c' pv = suffixed c sv" by (rule sym)
  with suffixed_cross[of pv sv c' c] valid_tags_length[OF assms] show False by blast
qed

text \<open>Reading a merged row by column label.\<close>

lemma merged_row_diff:
  "row_map (column_order p s pv sv) (map norm (merged_row p s (tag, io, jo))) ''diff''
     = Some (norm (Str tag))"
proof -
  have "map_of (zip (map (\<lambda>c. suffixed c pv) (''Segmentname'' # data_columns p))
                    (map (\<lambda>c. norm (side_cell p io c)) (''Segmentname'' # data_columns p))) ''diff'' = None"
    by (rule map_of_zip_map_None) (rule diff_not_suffixed)
  then show ?thesis
    by (simp only: row_map_merged_row option.case if_True refl)
qed

lemma merged_row_previous:
  assumes "c \<in> set (''Segmentname'' # data_columns p)"
  shows "row_map (column_order p s pv sv) (map norm (merged_row p s (tag, io, jo))) (suffixed c pv)
           = Some (norm (side_cell p io c))"
  using map_of_zip_map_inj[OF inj_suffixed assms, of pv "\<lambda>c. norm (side_cell p io c)"]
  by (simp only: row_map_merged_row option.case)

lemma merged_row_subsequent:
  assumes tags: "valid_tags pv sv" and c: "c \<in> set (''Segmentname'' # data_columns s)"
  shows "row_map (column_order p s pv sv) (map norm (merged_row p s (tag, io, jo))) (suffixed c sv)
           = Some (norm (side_cell s jo c))"
proof -
  have neq: "(suffixed c sv = ''diff'') = False" using suffixed_not_diff by simp
  have "map_of (zip (map (\<lambda>c. suffixed c pv) (''Segmentname'' # data_columns p))
                    (map (\<lambda>c. norm (side_cell p io c)) (''Segmentname'' # data_columns p)))
          (suffixed c sv) = None"
    by (rule map_of_zip_map_None) (rule cross_not_suffixed[OF tags])
  with map_of_zip_map_inj[OF inj_suffixed c, of sv "\<lambda>c. norm (side_cell s jo c)"]
  show ?thesis
    by (simp only: row_map_merged_row option.case neq if_False)
qed

text \<open>The columns of one side are exactly the columns whose label carries that side's tag.\<close>

lemma suffixed_columns:
  assumes tags: "valid_tags pv sv"
  shows "suffixed x sv \<in> set (column_order p s pv sv) \<Longrightarrow> x \<in> set (''Segmentname'' # data_columns s)"
    and "suffixed x pv \<in> set (column_order p s pv sv) \<Longrightarrow> x \<in> set (''Segmentname'' # data_columns p)"
proof -
  note lens = valid_tags_length[OF tags]
  have x1: "suffixed a pv \<noteq> suffixed b sv" "suffixed b sv \<noteq> suffixed a pv" for a b
    using suffixed_cross[of pv sv a b] lens by auto
  have nd: "suffixed a fv \<noteq> ''diff''" for a fv by (rule suffixed_not_diff)
  show "suffixed x sv \<in> set (column_order p s pv sv) \<Longrightarrow> x \<in> set (''Segmentname'' # data_columns s)"
    unfolding column_order_alt using x1 nd
    by (auto simp del: list.map simp: suffixed_inj image_iff)
  show "suffixed x pv \<in> set (column_order p s pv sv) \<Longrightarrow> x \<in> set (''Segmentname'' # data_columns p)"
    unfolding column_order_alt using x1 nd
    by (auto simp del: list.map simp: suffixed_inj image_iff)
qed

section \<open>Claims about the merged table\<close>

lemma example_tags: "valid_tags ''FV2410'' ''FV2504''"
  by (simp add: valid_tags_def parse_formatversions_def startswith_def py_int_def
      py_strip_def py_isspace_def is_digit_def digit_val_def)

lemma length_merged_row:
  "length (merged_row p s d) = length (column_order p s pv sv)"
  by (cases d) (simp add: merged_row_def side_values_def column_order_alt)

text \<open>
  C3. Special cases of the alignment engine. Two empty tables give a merged table without
  rows that carries the whole column layout. When only the subsequent table is empty,
  the merged rows are the previous rows in their order, each tagged \<^verbatim>\<open>REMOVED\<close> with a
  blank subsequent side; when only the previous table is empty, they are the subsequent
  rows in their order, each tagged \<^verbatim>\<open>NEW\<close> with a blank previous side.
\<close>

theorem align_columns_special_cases:
  assumes "wf_table pv p" "wf_table sv s" "valid_tags pv sv"
  shows "(df_empty p \<and> df_empty s \<longrightarrow>
            align_columns fuel p s pv sv
              = Some (Inr \<lparr>columns = column_order p s pv sv, rows = []\<rparr>))
       \<and> (\<not> df_empty p \<and> df_empty s \<longrightarrow>
            align_columns fuel p s pv sv
              = Some (Inr \<lparr>columns = column_order p s pv sv,
                         rows = map (\<lambda>i. side_values p (Some i) @ [Str ''REMOVED''] @ side_values s None)
                                    [0..<length (rows p)]\<rparr>))
       \<and> (df_empty p \<and> \<not> df_empty s \<longrightarrow>
            align_columns fuel p s pv sv
              = Some (Inr \<lparr>columns = column_order p s pv sv,
                         rows = map (\<lambda>j. side_values p None @ [Str ''NEW''] @ side_values s (Some j))
                                    [0..<length (rows s)]\<rparr>))"
  using align_columns_both_empty[OF assms, of fuel] align_columns_removed[OF assms, of fuel]
    align_columns_new[OF assms, of fuel]
  by (simp add: wf_table_empty[OF assms(1)] wf_table_empty[OF assms(2)] merged_row_def)

theorem align_columns_special_cases_witness:
  "\<not> df_empty \<lparr>columns = [''Segmentname'', ''X''], rows = [[Str ''A'', Str ''1''], [Str ''B'', NaN]]\<rparr>
   \<and> df_empty \<lparr>columns = [''Y'', ''Segmentname''], rows = []\<rparr>
   \<and> align_columns 0
         \<lparr>columns = [''Segmentname'', ''X''], rows = [[Str ''A'', Str ''1''], [Str ''B'', NaN]]\<rparr>
         \<lparr>columns = [''Y'', ''Segmentname''], rows = []\<rparr> ''FV2410'' ''FV2504''
       = Some (Inr \<lparr>columns = [''Segmentname_FV2410'', ''X_FV2410'', ''diff'',
                                 ''Segmentname_FV2504'', ''Y_FV2504''],
                      rows = [[Str ''A'', Str ''1'', Str ''REMOVED'', Str [], Str []],
                              [Str ''B'', Str [], Str ''REMOVED'', Str [], Str []]]\<rparr>)"
proof -
  let ?p = "\<lparr>columns = [''Segmentname'', ''X''], rows = [[Str ''A'', Str ''1''], [Str ''B'', NaN]]\<rparr>"
  let ?s = "\<lparr>columns = [''Y'', ''Segmentname''], rows = []\<rparr>"
  have wp: "wf_table ''FV2410'' ?p" by (simp add: wf_table_def segmentname_col_def)
  have ws: "wf_table ''FV2504'' ?s" by (simp add: wf_table_def segmentname_col_def)
  have e: "\<not> df_empty ?p" "df_empty ?s" by (simp_all add: df_empty_def)
  have up: "[0..<length (rows ?p)] = [0, 1]" by (simp add: upt_rec)
  from align_columns_special_cases[OF wp ws example_tags, of 0] e
  have "align_columns 0 ?p ?s ''FV2410'' ''FV2504''
          = Some (Inr \<lparr>columns = column_order ?p ?s ''FV2410'' ''FV2504'',
                        rows = map (\<lambda>i. side_values ?p (Some i) @ [Str ''REMOVED''] @ side_values ?s None)
                                   [0..<length (rows ?p)]\<rparr>)"
    by blast
  then show ?thesis
    unfolding up using e
    by (simp add: column_order_def side_values_def side_cell_def data_columns_def cell_of_def
        row_map_def blank_nan_def segmentname_col_def suffixed_def)
qed

text \<open>
  C9. The merged table has the columns: previous key, previous data columns in the order
  of the previous table, \<^verbatim>\<open>diff\<close>, subsequent key, subsequent data columns in the order of
  the subsequent table. The labels are pairwise different, and every row lists one cell
  per column in this order: the values of the previous side, the tag, the values of the
  subsequent side.
\<close>

theorem merged_table_column_order:
  assumes "wf_table pv p" "wf_table sv s" "valid_tags pv sv"
    and "align_columns fuel p s pv sv = Some (Inr m)"
  shows "columns m = [segmentname_col pv] @ map (\<lambda>col. suffixed col pv) (data_columns p)
                     @ [''diff''] @ [segmentname_col sv]
                     @ map (\<lambda>col. suffixed col sv) (data_columns s)
       \<and> distinct (columns m)
       \<and> (\<forall>r\<in>set (rows m). length r = length (columns m) \<and>
            (\<exists>tag i j. r = side_values p i @ [Str tag] @ side_values s j \<or>
                       r = map astype_str_replace_nan (side_values p i @ [Str tag] @ side_values s j)))"
proof -
  from merged_table_structure[OF assms] obtain ds where
    c: "columns m = column_order p s pv sv"
    and r: "rows m = map (\<lambda>d. map astype_str_replace_nan (merged_row p s d)) ds \<or>
            rows m = map (merged_row p s) ds"
    by (auto split: if_splits)
  have "length r = length (columns m) \<and>
            (\<exists>tag i j. r = side_values p i @ [Str tag] @ side_values s j \<or>
                       r = map astype_str_replace_nan (side_values p i @ [Str tag] @ side_values s j))"
    if "r \<in> set (rows m)" for r
  proof -
    from r that
    have "r \<in> (\<lambda>d. map astype_str_replace_nan (merged_row p s d)) ` set ds \<or> r \<in> merged_row p s ` set ds"
      by auto
    then obtain d where d: "r = map astype_str_replace_nan (merged_row p s d) \<or> r = merged_row p s d"
      by blast
    obtain tag i j where "d = (tag, i, j)" by (cases d)
    with d have "r = side_values p i @ [Str tag] @ side_values s j \<or>
                 r = map astype_str_replace_nan (side_values p i @ [Str tag] @ side_values s j)"
      by (auto simp: merged_row_def)
    moreover from d have "length r = length (columns m)"
      using length_merged_row[of p s d pv sv] c by auto
    ultimately show ?thesis by blast
  qed
  with c distinct_column_order[OF assms(1-3)] show ?thesis
    by (simp add: column_order_def data_columns_def)
qed


lemma example_general_run:
  "align_columns 5
     \<lparr>columns = [''Segmentname'', ''X''],
      rows = [[Str ''A'', Str ''1''], [Str ''B'', NaN], [Str ''C'', Str ''3'']]\<rparr>
     \<lparr>columns = [''Y'', ''Segmentname''],
      rows = [[Str ''u'', Str ''A''], [Str ''w'', Str ''D''], [Str ''v'', Str ''C'']]\<rparr>
     ''FV2410'' ''FV2504''
   = Some (Inr \<lparr>columns = [''Segmentname_FV2410'', ''X_FV2410'', ''diff'',
                             ''Segmentname_FV2504'', ''Y_FV2504''],
                  rows = [[Str ''A'', Str ''1'', Str [], Str ''A'', Str ''u''],
                          [Str ''B'', Str [], Str ''REMOVED'', Str [], Str []],
                          [Str [], Str [], Str ''NEW'', Str ''D'', Str ''w''],
                          [Str ''C'', Str ''3'', Str [], Str ''C'', Str ''v'']]\<rparr>)"
  by code_simp

theorem merged_table_column_order_witness:
  "wf_table ''FV2410'' \<lparr>columns = [''Segmentname'', ''X''],
      rows = [[Str ''A'', Str ''1''], [Str ''B'', NaN], [Str ''C'', Str ''3'']]\<rparr>
   \<and> wf_table ''FV2504'' \<lparr>columns = [''Y'', ''Segmentname''],
      rows = [[Str ''u'', Str ''A''], [Str ''w'', Str ''D''], [Str ''v'', Str ''C'']]\<rparr>
   \<and> valid_tags ''FV2410'' ''FV2504''
   \<and> distinct [''Segmentname_FV2410'', ''X_FV2410'', ''diff'', ''Segmentname_FV2504'', ''Y_FV2504'']
   \<and> [''Segmentname_FV2410'', ''X_FV2410'', ''diff'', ''Segmentname_FV2504'', ''Y_FV2504'']
       = [segmentname_col ''FV2410''] @ map (\<lambda>col. suffixed col ''FV2410'') [''X'']
         @ [''diff''] @ [segmentname_col ''FV2504''] @ map (\<lambda>col. suffixed col ''FV2504'') [''Y'']"
proof -
  let ?p = "\<lparr>columns = [''Segmentname'', ''X''],
      rows = [[Str ''A'', Str ''1''], [Str ''B'', NaN], [Str ''C'', Str ''3'']]\<rparr>"
  let ?s = "\<lparr>columns = [''Y'', ''Segmentname''],
      rows = [[Str ''u'', Str ''A''], [Str ''w'', Str ''D''], [Str ''v'', Str ''C'']]\<rparr>"
  let ?m = "\<lparr>columns = [''Segmentname_FV2410'', ''X_FV2410'', ''diff'',
                             ''Segmentname_FV2504'', ''Y_FV2504''],
                  rows = [[Str ''A'', Str ''1'', Str [], Str ''A'', Str ''u''],
                          [Str ''B'', Str [], Str ''REMOVED'', Str [], Str []],
                          [Str [], Str [], Str ''NEW'', Str ''D'', Str ''w''],
                          [Str ''C'', Str ''3'', Str [], Str ''C'', Str ''v'']]\<rparr>"
  have wp: "wf_table ''FV2410'' ?p" by (simp add: wf_table_def segmentname_col_def)
  have ws: "wf_table ''FV2504'' ?s" by (simp add: wf_table_def segmentname_col_def)
  note th = merged_table_column_order[OF wp ws example_tags example_general_run]
  from th have a: "columns ?m = [segmentname_col ''FV2410''] @ map (\<lambda>col. suffixed col ''FV2410'') (data_columns ?p)
         @ [''diff''] @ [segmentname_col ''FV2504''] @ map (\<lambda>col. suffixed col ''FV2504'') (data_columns ?s)"
    by (rule conjunct1)
  from th have b: "distinct (columns ?m)" by blast
  have dp: "data_columns ?p = [''X'']" and ds: "data_columns ?s = [''Y'']"
    by (simp_all add: data_columns_def)
  have cm: "columns ?m = [''Segmentname_FV2410'', ''X_FV2410'', ''diff'', ''Segmentname_FV2504'', ''Y_FV2504'']"
    by simp
  from a b show ?thesis unfolding dp ds cm using wp ws example_tags by blast
qed

text \<open>
  C4. Every row of the merged table carries one of the three tags. In a row tagged
  \<^verbatim>\<open>REMOVED\<close> every column with the subsequent tag as suffix, the key column included,
  holds the empty string; in a row tagged \<^verbatim>\<open>NEW\<close> every column with the previous tag as
  suffix does; a row with the empty tag carries on both sides the values of one previous
  and one subsequent row.
\<close>

theorem merged_row_sides:
  assumes "wf_table pv p" "wf_table sv s" "valid_tags pv sv"
    and "align_columns fuel p s pv sv = Some (Inr m)" and "r \<in> set (rows m)"
  shows "row_map (columns m) r ''diff'' \<in> {Some (Str []), Some (Str ''NEW''), Some (Str ''REMOVED'')}
       \<and> (row_map (columns m) r ''diff'' = Some (Str ''REMOVED'') \<longrightarrow>
            (\<forall>c\<in>set (columns m). (\<exists>x. c = suffixed x sv) \<longrightarrow> row_map (columns m) r c = Some (Str [])))
       \<and> (row_map (columns m) r ''diff'' = Some (Str ''NEW'') \<longrightarrow>
            (\<forall>c\<in>set (columns m). (\<exists>x. c = suffixed x pv) \<longrightarrow> row_map (columns m) r c = Some (Str [])))
       \<and> (row_map (columns m) r ''diff'' = Some (Str []) \<longrightarrow>
            (\<exists>i<length (rows p). \<exists>j<length (rows s).
               r = map astype_str_replace_nan
                     (side_values p (Some i) @ [Str []] @ side_values s (Some j))))"
proof -
  let ?order = "column_order p s pv sv"
  from merged_table_structure[OF assms(1-4)] obtain ds where
    c: "columns m = ?order"
    and v: "list_all (valid_decision (keys_of p) (keys_of s)) ds"
    and rs: "if rows p \<noteq> [] \<and> rows s \<noteq> []
             then rows m = map (\<lambda>d. map astype_str_replace_nan (merged_row p s d)) ds
             else rows m = map (merged_row p s) ds"
    by blast
  define norm where "norm = (if rows p \<noteq> [] \<and> rows s \<noteq> [] then astype_str_replace_nan else (\<lambda>x. x))"
  from rs have "rows m = map (\<lambda>d. map norm (merged_row p s d)) ds"
    by (auto simp: norm_def)
  with assms(5) obtain d where d: "d \<in> set ds" "r = map norm (merged_row p s d)" by auto
  obtain tag io jo where dd: "d = (tag, io, jo)" by (cases d)
  from v d(1) have val: "valid_decision (keys_of p) (keys_of s) (tag, io, jo)"
    by (simp add: list_all_iff dd)
  have n: "norm (Str []) = Str []" "norm (Str ''NEW'') = Str ''NEW''" "norm (Str ''REMOVED'') = Str ''REMOVED''"
    by (simp_all add: norm_def)
  have diff: "row_map (columns m) r ''diff'' = Some (norm (Str tag))"
    unfolding c d(2) dd by (rule merged_row_diff)
  have prev: "row_map (columns m) r (suffixed x pv) = Some (norm (side_cell p io x))"
    if "suffixed x pv \<in> set (columns m)" for x
  proof -
    from that have "suffixed x pv \<in> set ?order" by (simp only: c)
    then have "x \<in> set (''Segmentname'' # data_columns p)"
      by (rule suffixed_columns(2)[OF assms(3)])
    then show ?thesis unfolding c d(2) dd by (rule merged_row_previous)
  qed
  have nxt: "row_map (columns m) r (suffixed x sv) = Some (norm (side_cell s jo x))"
    if "suffixed x sv \<in> set (columns m)" for x
  proof -
    from that have "suffixed x sv \<in> set ?order" by (simp only: c)
    then have "x \<in> set (''Segmentname'' # data_columns s)"
      by (rule suffixed_columns(1)[OF assms(3)])
    then show ?thesis unfolding c d(2) dd by (rule merged_row_subsequent[OF assms(3)])
  qed
  show ?thesis
  proof (cases io; cases jo)
    assume "io = None" "jo = None"
    with val show ?thesis by simp
  next
    fix j assume e: "io = None" "jo = Some j"
    with val have tag: "tag = ''NEW''" by simp
    have "row_map (columns m) r c = Some (Str [])" if "c \<in> set (columns m)" "c = suffixed x pv" for c x
      using prev[of x] that n(1) e by (simp add: side_cell_def)
    with diff tag n show ?thesis by auto
  next
    fix i assume e: "io = Some i" "jo = None"
    with val have tag: "tag = ''REMOVED''" by simp
    have "row_map (columns m) r c = Some (Str [])" if "c \<in> set (columns m)" "c = suffixed x sv" for c x
      using nxt[of x] that n(1) e by (simp add: side_cell_def)
    with diff tag n show ?thesis by auto
  next
    fix i j assume e: "io = Some i" "jo = Some j"
    with val have tag: "tag = []" and ij: "i < length (rows p)" "j < length (rows s)"
      by (simp_all add: length_keys_of)
    from ij have "rows p \<noteq> [] \<and> rows s \<noteq> []" by auto
    then have "norm = astype_str_replace_nan" by (simp add: norm_def)
    with d(2) dd e tag
    have "r = map astype_str_replace_nan (side_values p (Some i) @ [Str []] @ side_values s (Some j))"
      by (simp add: merged_row_def)
    with ij diff tag n show ?thesis by auto
  qed
qed


theorem merged_row_sides_witness:
  "row_map [''Segmentname_FV2410'', ''X_FV2410'', ''diff'', ''Segmentname_FV2504'', ''Y_FV2504'']
     [Str ''B'', Str [], Str ''REMOVED'', Str [], Str []] ''diff'' = Some (Str ''REMOVED'')
   \<and> row_map [''Segmentname_FV2410'', ''X_FV2410'', ''diff'', ''Segmentname_FV2504'', ''Y_FV2504'']
     [Str ''B'', Str [], Str ''REMOVED'', Str [], Str []] (suffixed ''Segmentname'' ''FV2504'') = Some (Str [])
   \<and> row_map [''Segmentname_FV2410'', ''X_FV2410'', ''diff'', ''Segmentname_FV2504'', ''Y_FV2504'']
     [Str ''B'', Str [], Str ''REMOVED'', Str [], Str []] (suffixed ''Y'' ''FV2504'') = Some (Str [])"
proof -
  let ?p = "\<lparr>columns = [''Segmentname'', ''X''],
      rows = [[Str ''A'', Str ''1''], [Str ''B'', NaN], [Str ''C'', Str ''3'']]\<rparr>"
  let ?s = "\<lparr>columns = [''Y'', ''Segmentname''],
      rows = [[Str ''u'', Str ''A''], [Str ''w'', Str ''D''], [Str ''v'', Str ''C'']]\<rparr>"
  let ?cols = "[''Segmentname_FV2410'', ''X_FV2410'', ''diff'', ''Segmentname_FV2504'', ''Y_FV2504'']"
  let ?r = "[Str ''B'', Str [], Str ''REMOVED'', Str [], Str []]"
  let ?m = "\<lparr>columns = ?cols,
                  rows = [[Str ''A'', Str ''1'', Str [], Str ''A'', Str ''u''], ?r,
                          [Str [], Str [], Str ''NEW'', Str ''D'', Str ''w''],
                          [Str ''C'', Str ''3'', Str [], Str ''C'', Str ''v'']]\<rparr>"
  have wp: "wf_table ''FV2410'' ?p" by (simp add: wf_table_def segmentname_col_def)
  have ws: "wf_table ''FV2504'' ?s" by (simp add: wf_table_def segmentname_col_def)
  have r: "?r \<in> set (rows ?m)" by simp
  have cm: "columns ?m = ?cols" by simp
  have d: "row_map ?cols ?r ''diff'' = Some (Str ''REMOVED'')" by (simp add: row_map_def)
  from merged_row_sides[OF wp ws example_tags example_general_run r]
  have "row_map (columns ?m) ?r ''diff'' = Some (Str ''REMOVED'') \<longrightarrow>
          (\<forall>c\<in>set (columns ?m). (\<exists>x. c = suffixed x ''FV2504'') \<longrightarrow> row_map (columns ?m) ?r c = Some (Str []))"
    by blast
  with d have all: "\<forall>c\<in>set ?cols. (\<exists>x. c = suffixed x ''FV2504'') \<longrightarrow> row_map ?cols ?r c = Some (Str [])"
    unfolding cm by blast
  have "suffixed ''Segmentname'' ''FV2504'' \<in> set ?cols" "suffixed ''Y'' ''FV2504'' \<in> set ?cols"
    by (simp_all add: suffixed_def)
  with all have "row_map ?cols ?r (suffixed ''Segmentname'' ''FV2504'') = Some (Str [])"
    "row_map ?cols ?r (suffixed ''Y'' ''FV2504'') = Some (Str [])"
    by blast+
  with d show ?thesis by blast
qed

lemma diff_column:
  "map (\<lambda>r. row_map (column_order p s pv sv) r ''diff'') (map (\<lambda>d. map norm (merged_row p s d)) ds)
     = map (\<lambda>d. Some (norm (Str (fst d)))) ds"
proof -
  have "row_map (column_order p s pv sv) (map norm (merged_row p s d)) ''diff'' = Some (norm (Str (fst d)))"
    for d
    by (cases d) (simp only: merged_row_diff fst_conv)
  then show ?thesis by (simp add: comp_def)
qed

lemma diff_column_plain:
  "map (\<lambda>r. row_map (column_order p s pv sv) r ''diff'') (map (merged_row p s) ds)
     = map (\<lambda>d. Some (Str (fst d))) ds"
  using diff_column[of p s pv sv "\<lambda>x. x" ds] by simp

lemma keys_of_nth: "i < length (rows df) \<Longrightarrow> keys_of df ! i = cell_of df i ''Segmentname''"
  by (simp add: keys_of_def)

text \<open>
  C10. In every row of the merged table with the empty tag, the previous key column and
  the subsequent key column hold the same value. The tags depend on the two key columns
  only: two other tables with the same key columns, whatever their data cells are, give
  a merged table with the same \<^verbatim>\<open>diff\<close> column.
\<close>

theorem unchanged_decided_by_keys:
  assumes "wf_table pv p" "wf_table sv s" "valid_tags pv sv"
    and "align_columns fuel p s pv sv = Some (Inr m)"
    and "wf_table pv p'" "wf_table sv s'" "keys_of p' = keys_of p" "keys_of s' = keys_of s"
  shows "(\<forall>r\<in>set (rows m). row_map (columns m) r ''diff'' = Some (Str []) \<longrightarrow>
            row_map (columns m) r (segmentname_col pv) = row_map (columns m) r (segmentname_col sv))
       \<and> (\<exists>m'. align_columns fuel p' s' pv sv = Some (Inr m') \<and>
                map (\<lambda>r. row_map (columns m') r ''diff'') (rows m')
                  = map (\<lambda>r. row_map (columns m) r ''diff'') (rows m))"
proof
  let ?order = "column_order p s pv sv"
  from merged_table_structure[OF assms(1-4)] obtain ds where
    c: "columns m = ?order"
    and v: "list_all (valid_decision (keys_of p) (keys_of s)) ds"
    and rs: "if rows p \<noteq> [] \<and> rows s \<noteq> []
             then rows m = map (\<lambda>d. map astype_str_replace_nan (merged_row p s d)) ds
             else rows m = map (merged_row p s) ds"
    by blast
  define norm where "norm = (if rows p \<noteq> [] \<and> rows s \<noteq> [] then astype_str_replace_nan else (\<lambda>x. x))"
  from rs have rm: "rows m = map (\<lambda>d. map norm (merged_row p s d)) ds"
    by (auto simp: norm_def)
  have n: "norm (Str ''NEW'') = Str ''NEW''" "norm (Str ''REMOVED'') = Str ''REMOVED''"
    by (simp_all add: norm_def)
  show "\<forall>r\<in>set (rows m). row_map (columns m) r ''diff'' = Some (Str []) \<longrightarrow>
            row_map (columns m) r (segmentname_col pv) = row_map (columns m) r (segmentname_col sv)"
  proof (intro ballI impI)
    fix r assume r: "r \<in> set (rows m)" and u: "row_map (columns m) r ''diff'' = Some (Str [])"
    from r rm obtain d where d: "d \<in> set ds" "r = map norm (merged_row p s d)" by auto
    obtain tag io jo where dd: "d = (tag, io, jo)" by (cases d)
    from v d(1) have val: "valid_decision (keys_of p) (keys_of s) (tag, io, jo)"
      by (simp add: list_all_iff dd)
    have diff: "row_map (columns m) r ''diff'' = Some (norm (Str tag))"
      unfolding c d(2) dd by (rule merged_row_diff)
    from val diff u n obtain i j where ij: "io = Some i" "jo = Some j"
      by (cases io; cases jo) auto
    with val have lt: "i < length (rows p)" "j < length (rows s)"
      and eq: "py_eq (keys_of p ! i) (keys_of s ! j)" by (simp_all add: length_keys_of)
    from eq have "keys_of p ! i = keys_of s ! j" by (simp add: py_eq_iff)
    with lt have same: "cell_of p i ''Segmentname'' = cell_of s j ''Segmentname''"
      by (simp add: keys_of_nth)
    have "row_map (columns m) r (suffixed ''Segmentname'' pv) = Some (norm (side_cell p io ''Segmentname''))"
      unfolding c d(2) dd by (rule merged_row_previous) simp
    moreover
    have "row_map (columns m) r (suffixed ''Segmentname'' sv) = Some (norm (side_cell s jo ''Segmentname''))"
      unfolding c d(2) dd by (rule merged_row_subsequent[OF assms(3)]) simp
    ultimately show "row_map (columns m) r (segmentname_col pv) = row_map (columns m) r (segmentname_col sv)"
      using same ij by (simp add: segmentname_col_suffixed side_cell_def)
  qed
next
  have lp: "length (rows p') = length (rows p)" and ls: "length (rows s') = length (rows s)"
    using assms(7,8) by (metis length_keys_of)+
  then have ep: "rows p' = [] \<longleftrightarrow> rows p = []" and es: "rows s' = [] \<longleftrightarrow> rows s = []"
    by auto
  note w = assms(1-3) and w' = assms(5,6,3)
  consider (both) "rows p = []" "rows s = []" | (new) "rows p = []" "rows s \<noteq> []"
    | (removed) "rows p \<noteq> []" "rows s = []" | (general) "rows p \<noteq> []" "rows s \<noteq> []"
    by blast
  then show "\<exists>m'. align_columns fuel p' s' pv sv = Some (Inr m') \<and>
                map (\<lambda>r. row_map (columns m') r ''diff'') (rows m')
                  = map (\<lambda>r. row_map (columns m) r ''diff'') (rows m)"
  proof cases
    case both
    with align_columns_both_empty[OF w, of fuel] align_columns_both_empty[OF w', of fuel] assms(4) ep es
    show ?thesis by auto
  next
    case new
    from new align_columns_new[OF w, of fuel] assms(4)
    have m: "m = \<lparr>columns = column_order p s pv sv,
                   rows = map (merged_row p s) (map (\<lambda>j. (''NEW'', None, Some j)) [0..<length (rows s)])\<rparr>"
      by (simp add: comp_def)
    from new ep es align_columns_new[OF w', of fuel]
    have m': "align_columns fuel p' s' pv sv = Some (Inr \<lparr>columns = column_order p' s' pv sv,
                   rows = map (merged_row p' s') (map (\<lambda>j. (''NEW'', None, Some j)) [0..<length (rows s)])\<rparr>)"
      by (simp add: comp_def ls)
    show ?thesis unfolding m m' by (simp only: option.inject sum.inject simp_thms ex_simps
          DataFrame.simps diff_column_plain)
  next
    case removed
    from removed align_columns_removed[OF w, of fuel] assms(4)
    have m: "m = \<lparr>columns = column_order p s pv sv,
                   rows = map (merged_row p s) (map (\<lambda>i. (''REMOVED'', Some i, None)) [0..<length (rows p)])\<rparr>"
      by (simp add: comp_def)
    from removed ep es align_columns_removed[OF w', of fuel]
    have m': "align_columns fuel p' s' pv sv = Some (Inr \<lparr>columns = column_order p' s' pv sv,
                   rows = map (merged_row p' s') (map (\<lambda>i. (''REMOVED'', Some i, None)) [0..<length (rows p)])\<rparr>)"
      by (simp add: comp_def lp)
    show ?thesis unfolding m m' by (simp only: option.inject sum.inject simp_thms ex_simps
          DataFrame.simps diff_column_plain)
  next
    case general
    note g = align_columns_general[OF w general, of fuel]
    from general ep es have general': "rows p' \<noteq> []" "rows s' \<noteq> []" by auto
    note g' = align_columns_general[OF w' general', of fuel, unfolded assms(7,8)]
    from assms(4) g obtain i j ds where
      L: "align_loop fuel decide (keys_of p) (keys_of s) (0, 0, []) = Some (Inr (i, j, ds))"
      by (auto split: option.splits sum.splits)
    from assms(4) g L
    have m: "m = \<lparr>columns = column_order p s pv sv,
                   rows = map (\<lambda>d. map astype_str_replace_nan (merged_row p s d)) ds\<rparr>" by simp
    from g' L
    have m': "align_columns fuel p' s' pv sv = Some (Inr \<lparr>columns = column_order p' s' pv sv,
                   rows = map (\<lambda>d. map astype_str_replace_nan (merged_row p' s' d)) ds\<rparr>)" by simp
    show ?thesis unfolding m m' by (simp only: option.inject sum.inject simp_thms ex_simps
          DataFrame.simps diff_column)
  qed
qed


theorem unchanged_decided_by_keys_witness:
  "row_map [''Segmentname_FV2410'', ''X_FV2410'', ''diff'', ''Segmentname_FV2504'', ''Y_FV2504'']
     [Str ''A'', Str ''1'', Str [], Str ''A'', Str ''u''] ''diff'' = Some (Str [])
   \<and> row_map [''Segmentname_FV2410'', ''X_FV2410'', ''diff'', ''Segmentname_FV2504'', ''Y_FV2504'']
         [Str ''A'', Str ''1'', Str [], Str ''A'', Str ''u''] (segmentname_col ''FV2410'')
       = row_map [''Segmentname_FV2410'', ''X_FV2410'', ''diff'', ''Segmentname_FV2504'', ''Y_FV2504'']
         [Str ''A'', Str ''1'', Str [], Str ''A'', Str ''u''] (segmentname_col ''FV2504'')
   \<and> (\<exists>m'. align_columns 5
               \<lparr>columns = [''Segmentname'', ''X''],
                rows = [[Str ''A'', Str ''9''], [Str ''B'', Str ''8''], [Str ''C'', NaN]]\<rparr>
               \<lparr>columns = [''Y'', ''Segmentname''],
                rows = [[NaN, Str ''A''], [Str ''x'', Str ''D''], [Str ''y'', Str ''C'']]\<rparr>
               ''FV2410'' ''FV2504'' = Some (Inr m')
             \<and> map (\<lambda>r. row_map (columns m') r ''diff'') (rows m')
                 = [Some (Str []), Some (Str ''REMOVED''), Some (Str ''NEW''), Some (Str [])])"
proof -
  let ?p = "\<lparr>columns = [''Segmentname'', ''X''],
      rows = [[Str ''A'', Str ''1''], [Str ''B'', NaN], [Str ''C'', Str ''3'']]\<rparr>"
  let ?s = "\<lparr>columns = [''Y'', ''Segmentname''],
      rows = [[Str ''u'', Str ''A''], [Str ''w'', Str ''D''], [Str ''v'', Str ''C'']]\<rparr>"
  let ?p' = "\<lparr>columns = [''Segmentname'', ''X''],
                rows = [[Str ''A'', Str ''9''], [Str ''B'', Str ''8''], [Str ''C'', NaN]]\<rparr>"
  let ?s' = "\<lparr>columns = [''Y'', ''Segmentname''],
                rows = [[NaN, Str ''A''], [Str ''x'', Str ''D''], [Str ''y'', Str ''C'']]\<rparr>"
  let ?cols = "[''Segmentname_FV2410'', ''X_FV2410'', ''diff'', ''Segmentname_FV2504'', ''Y_FV2504'']"
  let ?r = "[Str ''A'', Str ''1'', Str [], Str ''A'', Str ''u'']"
  let ?m = "\<lparr>columns = ?cols,
                  rows = [?r, [Str ''B'', Str [], Str ''REMOVED'', Str [], Str []],
                          [Str [], Str [], Str ''NEW'', Str ''D'', Str ''w''],
                          [Str ''C'', Str ''3'', Str [], Str ''C'', Str ''v'']]\<rparr>"
  have wp: "wf_table ''FV2410'' ?p" "wf_table ''FV2410'' ?p'"
    by (simp_all add: wf_table_def segmentname_col_def)
  have ws: "wf_table ''FV2504'' ?s" "wf_table ''FV2504'' ?s'"
    by (simp_all add: wf_table_def segmentname_col_def)
  have kp: "keys_of ?p' = keys_of ?p" and ks: "keys_of ?s' = keys_of ?s"
    by (simp_all add: keys_of_def cell_of_def row_map_def upt_rec)
  note th = unchanged_decided_by_keys[OF wp(1) ws(1) example_tags example_general_run wp(2) ws(2) kp ks]
  have r: "?r \<in> set (rows ?m)" by simp
  have d: "row_map ?cols ?r ''diff'' = Some (Str [])" by (simp add: row_map_def)
  from th r have "row_map (columns ?m) ?r ''diff'' = Some (Str []) \<longrightarrow>
      row_map (columns ?m) ?r (segmentname_col ''FV2410'') = row_map (columns ?m) ?r (segmentname_col ''FV2504'')"
    by blast
  with d have k: "row_map ?cols ?r (segmentname_col ''FV2410'') = row_map ?cols ?r (segmentname_col ''FV2504'')"
    by simp
  have dc: "map (\<lambda>r. row_map (columns ?m) r ''diff'') (rows ?m)
              = [Some (Str []), Some (Str ''REMOVED''), Some (Str ''NEW''), Some (Str [])]"
    by (simp add: row_map_def)
  from th obtain m' where a: "align_columns 5 ?p' ?s' ''FV2410'' ''FV2504'' = Some (Inr m')"
    and b: "map (\<lambda>r. row_map (columns m') r ''diff'') (rows m') = map (\<lambda>r. row_map (columns ?m) r ''diff'') (rows ?m)"
    by blast
  from b dc have b': "map (\<lambda>r. row_map (columns m') r ''diff'') (rows m')
                 = [Some (Str []), Some (Str ''REMOVED''), Some (Str ''NEW''), Some (Str [])]"
    by (simp only:)
  have ex: "\<exists>m'. align_columns 5 ?p' ?s' ''FV2410'' ''FV2504'' = Some (Inr m')
             \<and> map (\<lambda>r. row_map (columns m') r ''diff'') (rows m')
                 = [Some (Str []), Some (Str ''REMOVED''), Some (Str ''NEW''), Some (Str [])]"
    by (rule exI[of _ m']) (rule conjI[OF a b'])
  show ?thesis by (rule conjI[OF d conjI[OF k ex]])
qed

section \<open>Forward search, coverage and termination\<close>

text \<open>
  The forward search of one pass, for keys that do not compare equal at the cursors: the
  search returns the first position of the previous key in the rest of the subsequent
  keys; without one the previous row is removed; with one at offset \<open>k\<close> the \<open>k\<close>
  subsequent rows before it are added. When the previous key is present (not the missing
  value), \<open>k\<close> is positive and the next pass pairs the two rows as unchanged.
\<close>

lemma forward_search_step:
  assumes "i < length old" "j < length new" "\<not> py_eq (old ! i) (new ! j)"
  shows "(old ! i \<notin> set (drop j new) \<longrightarrow>
            loop_body decide old new (i, j, ds) = Inr (i + 1, j, ds @ [(''REMOVED'', Some i, None)]))
       \<and> (\<forall>k. j + k < length new \<and> new ! (j + k) = old ! i \<and> (\<forall>n<k. new ! (j + n) \<noteq> old ! i) \<longrightarrow>
              loop_body decide old new (i, j, ds)
                = Inr (i, j + k, ds @ map (\<lambda>n. (''NEW'', None, Some n)) [j..<j + k])
              \<and> (old ! i \<noteq> NaN \<longrightarrow> 0 < k \<and>
                   loop_body decide old new (i, j + k, ds @ map (\<lambda>n. (''NEW'', None, Some n)) [j..<j + k])
                     = Inr (i + 1, j + k + 1,
                            ds @ map (\<lambda>n. (''NEW'', None, Some n)) [j..<j + k] @ [([], Some i, Some (j + k))])))"
proof (intro conjI impI allI)
  assume "old ! i \<notin> set (drop j new)"
  then have "py_index (drop j new) (old ! i) = None" by (simp add: py_index_None)
  with assms show "loop_body decide old new (i, j, ds) = Inr (i + 1, j, ds @ [(''REMOVED'', Some i, None)])"
    unfolding loop_body_decide by simp
next
  fix k assume k: "j + k < length new \<and> new ! (j + k) = old ! i \<and> (\<forall>n<k. new ! (j + n) \<noteq> old ! i)"
  then have "py_index (drop j new) (old ! i) = Some k"
    by (intro py_index_first) auto
  with assms show first: "loop_body decide old new (i, j, ds)
                = Inr (i, j + k, ds @ map (\<lambda>n. (''NEW'', None, Some n)) [j..<j + k])"
    unfolding loop_body_decide by simp
  assume present: "old ! i \<noteq> NaN"
  from k assms(3) present show "0 < k" by (cases k) (auto simp: py_eq_iff)
  from k present have "py_eq (old ! i) (new ! (j + k))" by (simp add: py_eq_iff)
  with assms(1) k
  show "loop_body decide old new (i, j + k, ds @ map (\<lambda>n. (''NEW'', None, Some n)) [j..<j + k])
          = Inr (i + 1, j + k + 1,
                 ds @ map (\<lambda>n. (''NEW'', None, Some n)) [j..<j + k] @ [([], Some i, Some (j + k))])"
    unfolding loop_body_decide by simp
qed

text \<open>
  C1. The claim lets the pass after a successful forward search pair the match as
  unchanged. With the missing value as previous key and subsequent keys \<^verbatim>\<open>A\<close>, missing,
  the search finds the missing value at offset 1 and the pass adds row 0; the next pass
  compares the two missing values, which are not equal, finds the value at offset 0,
  emits nothing and leaves the state as it is.
\<close>

theorem forward_search_missing_key_not_paired:
  "loop_body decide [NaN] [Str ''A'', NaN] (0, 0, []) = Inr (0, 1, [(''NEW'', None, Some 0)])
   \<and> loop_body decide [NaN] [Str ''A'', NaN] (0, 1, [(''NEW'', None, Some 0)])
       = Inr (0, 1, [(''NEW'', None, Some 0)])"
  unfolding loop_body_decide by simp

text \<open>
  For tables whose previous keys are all present, enough fuel gives a merged table, and
  its rows are the merged rows of decisions that cover every previous row and every
  subsequent row exactly once, in order.
\<close>

lemma alignment_covers_rows:
  assumes wfp: "wf_table pv p" and wfs: "wf_table sv s" and tags: "valid_tags pv sv"
    and keys: "NaN \<notin> set (keys_of p)" and fuel: "length (rows p) + length (rows s) \<le> fuel"
  shows "\<exists>m ds. align_columns fuel p s pv sv = Some (Inr m) \<and>
           list_all (valid_decision (keys_of p) (keys_of s)) ds \<and>
           previous_rows ds = [0..<length (rows p)] \<and>
           subsequent_rows ds = [0..<length (rows s)] \<and>
           (if rows p \<noteq> [] \<and> rows s \<noteq> []
            then rows m = map (\<lambda>d. map astype_str_replace_nan (merged_row p s d)) ds
            else rows m = map (merged_row p s) ds)"
proof -
  have "\<exists>m. align_columns fuel p s pv sv = Some (Inr m)"
  proof (cases "rows p \<noteq> [] \<and> rows s \<noteq> []")
    case True
    from decisions_total[OF keys, of "keys_of s" fuel] fuel obtain ds where
      "align_loop fuel decide (keys_of p) (keys_of s) (0, 0, [])
         = Some (Inr (length (keys_of p), length (keys_of s), ds))"
      by (auto simp: length_keys_of)
    with align_columns_general[OF wfp wfs tags, of fuel] True show ?thesis by simp
  next
    case False
    with align_columns_both_empty[OF wfp wfs tags, of fuel] align_columns_removed[OF wfp wfs tags, of fuel]
      align_columns_new[OF wfp wfs tags, of fuel]
    show ?thesis by (cases "rows p = []"; cases "rows s = []") auto
  qed
  then obtain m where m: "align_columns fuel p s pv sv = Some (Inr m)" by blast
  from merged_table_structure[OF wfp wfs tags m] m show ?thesis by blast
qed

text \<open>
  C2. The claim promises a merged table for every pair of tables. When both cursors reach
  a row whose key is the missing value, the loop never leaves that state: for the tables
  with keys \<^verbatim>\<open>A\<close>, missing on both sides no amount of fuel yields a table.
\<close>

theorem align_columns_missing_keys_no_table:
  "align_columns fuel
     \<lparr>columns = [''Segmentname'', ''X''], rows = [[Str ''A'', Str ''1''], [NaN, Str ''2'']]\<rparr>
     \<lparr>columns = [''Segmentname'', ''X''], rows = [[Str ''A'', Str ''1''], [NaN, Str ''3'']]\<rparr>
     ''FV2410'' ''FV2504'' = None"
proof -
  let ?p = "\<lparr>columns = [''Segmentname'', ''X''], rows = [[Str ''A'', Str ''1''], [NaN, Str ''2'']]\<rparr>"
  let ?s = "\<lparr>columns = [''Segmentname'', ''X''], rows = [[Str ''A'', Str ''1''], [NaN, Str ''3'']]\<rparr>"
  have wp: "wf_table ''FV2410'' ?p" by (simp add: wf_table_def segmentname_col_def)
  have ws: "wf_table ''FV2504'' ?s" by (simp add: wf_table_def segmentname_col_def)
  have kp: "keys_of ?p = [Str ''A'', NaN]" and ks: "keys_of ?s = [Str ''A'', NaN]"
    by (simp_all add: keys_of_def cell_of_def row_map_def upt_rec)
  have stuck: "align_loop n decide [Str ''A'', NaN] [Str ''A'', NaN] (Suc 0, Suc 0, ds) = None" for n ds
    by (rule align_loop_diverges) simp_all
  have "align_loop fuel decide [Str ''A'', NaN] [Str ''A'', NaN] (0, 0, []) = None"
    by (cases fuel) (simp_all add: loop_body_decide stuck del: loop_body.simps)
  with align_columns_general[OF wp ws example_tags, of fuel] show ?thesis
    by (simp add: kp ks)
qed

text \<open>
  When no previous key is the missing value, every pass moves a cursor forward and the
  loop finishes within \<open>length old + length new\<close> passes, with at most that many
  decisions.
\<close>

lemma alignment_terminates:
  assumes "NaN \<notin> set old" "length old + length new \<le> fuel"
  shows "\<exists>ds. align_loop fuel decide old new (0, 0, []) = Some (Inr (length old, length new, ds))
              \<and> length ds \<le> length old + length new"
  using decisions_total[OF assms] by blast

text \<open>
  C5. The claim lets every pass advance a cursor and the loop end within
  \<open>length old + length new\<close> passes. With the missing value under both cursors a pass
  returns the state it started from, whatever the row builder, and the loop runs out of
  any amount of fuel.
\<close>

theorem align_loop_missing_keys_diverges:
  "loop_body mk [NaN] [NaN] (0, 0, rs) = Inr (0, 0, rs)
   \<and> align_loop fuel mk [NaN] [NaN] (0, 0, rs) = None"
proof
  show "loop_body mk [NaN] [NaN] (0, 0, rs) = Inr (0, 0, rs)" by simp
  show "align_loop fuel mk [NaN] [NaN] (0, 0, rs) = None"
    by (rule align_loop_diverges) simp_all
qed


section \<open>Source values in the merged table\<close>

text \<open>
  In every row of the merged table, a side with a contributing source row carries that
  row's cells: a cell that is a string other than \<^verbatim>\<open>nan\<close> appears as it is, in the key
  column and in the data columns, and a missing data cell appears as the empty string.
\<close>

lemma present_values_verbatim:
  assumes "wf_table pv p" "wf_table sv s" "valid_tags pv sv"
    and "align_columns fuel p s pv sv = Some (Inr m)" and "r \<in> set (rows m)"
  shows "\<exists>tag io jo. valid_decision (keys_of p) (keys_of s) (tag, io, jo) \<and>
           (\<forall>i c. io = Some i \<and> c \<in> set (''Segmentname'' # data_columns p) \<longrightarrow>
              (\<forall>v. cell_of p i c = Str v \<and> v \<noteq> ''nan'' \<longrightarrow>
                   row_map (columns m) r (suffixed c pv) = Some (Str v)) \<and>
              (cell_of p i c = NaN \<and> c \<noteq> ''Segmentname'' \<longrightarrow>
                   row_map (columns m) r (suffixed c pv) = Some (Str []))) \<and>
           (\<forall>j c. jo = Some j \<and> c \<in> set (''Segmentname'' # data_columns s) \<longrightarrow>
              (\<forall>v. cell_of s j c = Str v \<and> v \<noteq> ''nan'' \<longrightarrow>
                   row_map (columns m) r (suffixed c sv) = Some (Str v)) \<and>
              (cell_of s j c = NaN \<and> c \<noteq> ''Segmentname'' \<longrightarrow>
                   row_map (columns m) r (suffixed c sv) = Some (Str [])))"
proof -
  let ?order = "column_order p s pv sv"
  from merged_table_structure[OF assms(1-4)] obtain ds where
    c: "columns m = ?order"
    and v: "list_all (valid_decision (keys_of p) (keys_of s)) ds"
    and rs: "if rows p \<noteq> [] \<and> rows s \<noteq> []
             then rows m = map (\<lambda>d. map astype_str_replace_nan (merged_row p s d)) ds
             else rows m = map (merged_row p s) ds"
    by blast
  define norm where "norm = (if rows p \<noteq> [] \<and> rows s \<noteq> [] then astype_str_replace_nan else (\<lambda>x. x))"
  from rs have "rows m = map (\<lambda>d. map norm (merged_row p s d)) ds"
    by (auto simp: norm_def)
  with assms(5) obtain d where d: "d \<in> set ds" "r = map norm (merged_row p s d)" by auto
  obtain tag io jo where dd: "d = (tag, io, jo)" by (cases d)
  from v d(1) have val: "valid_decision (keys_of p) (keys_of s) (tag, io, jo)"
    by (simp add: list_all_iff dd)
  have n: "norm (Str []) = Str []" "\<And>v. v \<noteq> ''nan'' \<Longrightarrow> norm (Str v) = Str v"
    by (simp_all add: norm_def)
  have prev: "row_map (columns m) r (suffixed x pv) = Some (norm (side_cell p io x))"
    if "x \<in> set (''Segmentname'' # data_columns p)" for x
    unfolding c d(2) dd using that by (rule merged_row_previous)
  have nxt: "row_map (columns m) r (suffixed x sv) = Some (norm (side_cell s jo x))"
    if "x \<in> set (''Segmentname'' # data_columns s)" for x
    unfolding c d(2) dd using that by (rule merged_row_subsequent[OF assms(3)])
  have side: "(\<forall>v. cell_of df i x = Str v \<and> v \<noteq> ''nan'' \<longrightarrow> norm (side_cell df (Some i) x) = Str v) \<and>
              (cell_of df i x = NaN \<and> x \<noteq> ''Segmentname'' \<longrightarrow> norm (side_cell df (Some i) x) = Str [])"
    for df i x
    using n by (auto simp: side_cell_def blank_nan_def)
  show ?thesis
    apply (rule exI[of _ tag], rule exI[of _ io], rule exI[of _ jo])
    using val prev nxt side by (simp del: set_simps)
qed

text \<open>
  C6. The claim lets every source value that is a string appear unchanged and a missing
  value appear as the empty string. The two kinds of branch disagree on both: when both
  tables have rows, the final \<^verbatim>\<open>astype(str).replace("nan", "")\<close> blanks a cell that
  reads \<^verbatim>\<open>nan\<close> and a missing key, while the branch for an empty subsequent table
  keeps the cell that reads \<^verbatim>\<open>nan\<close> and leaves the missing key as the missing value.
\<close>

theorem literal_nan_cell_blanked:
  "align_columns 1
     \<lparr>columns = [''Segmentname'', ''X''], rows = [[Str ''A'', Str ''nan'']]\<rparr>
     \<lparr>columns = [''Segmentname'', ''X''], rows = [[Str ''A'', Str ''1'']]\<rparr>
     ''FV2410'' ''FV2504''
   = Some (Inr \<lparr>columns = [''Segmentname_FV2410'', ''X_FV2410'', ''diff'',
                             ''Segmentname_FV2504'', ''X_FV2504''],
                  rows = [[Str ''A'', Str [], Str [], Str ''A'', Str ''1'']]\<rparr>)
   \<and> align_columns 1
     \<lparr>columns = [''Segmentname'', ''X''], rows = [[Str ''A'', Str ''nan'']]\<rparr>
     \<lparr>columns = [''Segmentname'', ''X''], rows = []\<rparr>
     ''FV2410'' ''FV2504''
   = Some (Inr \<lparr>columns = [''Segmentname_FV2410'', ''X_FV2410'', ''diff'',
                             ''Segmentname_FV2504'', ''X_FV2504''],
                  rows = [[Str ''A'', Str ''nan'', Str ''REMOVED'', Str [], Str []]]\<rparr>)
   \<and> align_columns 2
     \<lparr>columns = [''Segmentname'', ''X''], rows = [[NaN, Str ''1'']]\<rparr>
     \<lparr>columns = [''Segmentname'', ''X''], rows = [[Str ''A'', Str ''2'']]\<rparr>
     ''FV2410'' ''FV2504''
   = Some (Inr \<lparr>columns = [''Segmentname_FV2410'', ''X_FV2410'', ''diff'',
                             ''Segmentname_FV2504'', ''X_FV2504''],
                  rows = [[Str [], Str ''1'', Str ''REMOVED'', Str [], Str []],
                          [Str [], Str [], Str ''NEW'', Str ''A'', Str ''2'']]\<rparr>)
   \<and> align_columns 2
     \<lparr>columns = [''Segmentname'', ''X''], rows = [[NaN, Str ''1'']]\<rparr>
     \<lparr>columns = [''Segmentname'', ''X''], rows = []\<rparr>
     ''FV2410'' ''FV2504''
   = Some (Inr \<lparr>columns = [''Segmentname_FV2410'', ''X_FV2410'', ''diff'',
                             ''Segmentname_FV2504'', ''X_FV2504''],
                  rows = [[NaN, Str ''1'', Str ''REMOVED'', Str [], Str []]]\<rparr>)"
  by code_simp

end
